theory Spec2Isabelle
  imports Complex_Main "HOL-Library.Word" "HOL-Library.Multiset"
begin

section \<open>C strings and the helpers of libc that mlsblk.c calls\<close>

text \<open>
  A C string is modelled by the list of its bytes before the terminating NUL, so the
  byte read through a pointer that stands at the end of the string is 0.
\<close>

definition cur :: "string \<Rightarrow> nat" where
  "cur s = (case s of [] \<Rightarrow> 0 | c # _ \<Rightarrow> of_char c)"

definition isdigit :: "char \<Rightarrow> bool" where
  "isdigit c = (48 \<le> (of_char c :: nat) \<and> (of_char c :: nat) \<le> 57)"

text \<open>\<open>strstr(hay, needle) != NULL\<close>: the needle occurs in the haystack.\<close>

fun strstr :: "string \<Rightarrow> string \<Rightarrow> bool" where
  "strstr [] needle = (needle = [])"
| "strstr (h # hs) needle = (take (length needle) (h # hs) = needle \<or> strstr hs needle)"

text \<open>\<open>strncmp(a, p, strlen(p)) == 0\<close>: the string starts with \<open>p\<close>.\<close>

definition starts_with :: "string \<Rightarrow> string \<Rightarrow> bool" where
  "starts_with a p = (take (length p) a = p)"

text \<open>
  \<open>strtoul(p, &p, 10)\<close> called on a decimal digit: the value of the digit run, saturated
  at \<open>ULONG_MAX\<close> (64 bits on the platform of the program); the pointer moves past the run.
\<close>

definition ULONG_MAX :: nat where
  "ULONG_MAX = 18446744073709551615"

definition digit_val :: "char \<Rightarrow> nat" where
  "digit_val c = of_char c - 48"

definition strtoul :: "string \<Rightarrow> nat" where
  "strtoul s = min (foldl (\<lambda>a c. 10 * a + digit_val c) 0 (takeWhile isdigit s)) ULONG_MAX"

definition strtoul_end :: "string \<Rightarrow> string" where
  "strtoul_end s = dropWhile isdigit s"

section \<open>The identifier comparator\<close>

definition skip_disk :: "string \<Rightarrow> string" where
  "skip_disk a = (if starts_with a ''disk'' then drop 4 a else a)"

function name_cmp_loop :: "string \<Rightarrow> string \<Rightarrow> int" where
  "name_cmp_loop pa pb =
     (if pa \<noteq> [] \<and> pb \<noteq> [] then
        if hd pa = hd pb then name_cmp_loop (tl pa) (tl pb)
        else if hd pa = CHR ''s'' \<and> hd pb = CHR ''s'' then name_cmp_loop (tl pa) (tl pb)
        else if hd pa = CHR ''s'' then 1
        else if hd pb = CHR ''s'' then - 1
        else if isdigit (hd pa) \<and> isdigit (hd pb) then
          let na = strtoul pa; nb = strtoul pb in
          if na \<noteq> nb then (if na > nb then 1 else 0) - (if na < nb then 1 else 0)
          else name_cmp_loop (strtoul_end pa) (strtoul_end pb)
        else int (cur pa) - int (cur pb)
      else int (cur pa) - int (cur pb))"
  by pat_completeness auto
termination
proof (relation "measure (\<lambda>(pa, pb). length pa)")
  show "wf (measure (\<lambda>(pa, pb). length pa))" by simp
next
  fix pa pb :: string
  assume "pa \<noteq> [] \<and> pb \<noteq> []"
  then show "((tl pa, tl pb), (pa, pb)) \<in> measure (\<lambda>(pa, pb). length pa)" by simp
next
  fix pa pb :: string
  assume "pa \<noteq> [] \<and> pb \<noteq> []"
  then show "((tl pa, tl pb), (pa, pb)) \<in> measure (\<lambda>(pa, pb). length pa)" by simp
next
  fix pa pb :: string and na nb :: nat
  assume ne: "pa \<noteq> [] \<and> pb \<noteq> []" and dg: "isdigit (hd pa) \<and> isdigit (hd pb)"
  from ne obtain c cs where pa: "pa = c # cs" by (cases pa) auto
  with dg have "strtoul_end pa = dropWhile isdigit cs" by (simp add: strtoul_end_def)
  moreover have "length (dropWhile isdigit cs) \<le> length cs" by (rule length_dropWhile_le)
  ultimately show "((strtoul_end pa, strtoul_end pb), (pa, pb)) \<in> measure (\<lambda>(pa, pb). length pa)"
    using pa by simp
qed

declare name_cmp_loop.simps [simp del]

text \<open>The guard \<open>if (!a || !b) return 0\<close>: a null pointer is \<open>None\<close>.\<close>

fun name_cmp :: "string option \<Rightarrow> string option \<Rightarrow> int" where
  "name_cmp (Some a) (Some b) = name_cmp_loop (skip_disk a) (skip_disk b)"
| "name_cmp _ _ = 0"

section \<open>Content description to filesystem type\<close>

text \<open>
  \<open>snprintf(out, outsz, fmt, ...)\<close> keeps at most \<open>outsz - 1\<close> bytes of the formatted text.
\<close>

definition snprintf :: "nat \<Rightarrow> string \<Rightarrow> string" where
  "snprintf outsz s = take (outsz - 1) s"

definition content_to_fstype :: "string option \<Rightarrow> nat \<Rightarrow> string" where
  "content_to_fstype content outsz =
     (case content of
        None \<Rightarrow> []
      | Some c \<Rightarrow>
          if strstr c ''APFS'' \<or> strstr c ''41504653'' then snprintf outsz ''apfs''
          else if strstr c ''HFS'' \<or> strstr c ''Apple_HFS'' then snprintf outsz ''hfs''
          else if strstr c ''EFI'' \<or> strstr c ''C12A7328'' then snprintf outsz ''vfat''
          else if strstr c ''GUID_partition_scheme'' then []
          else snprintf outsz (take 31 c))"

section \<open>Property lists\<close>

text \<open>
  The values that CoreFoundation hands to the program. \<open>CFOther\<close> stands for every type
  the program never asks for (booleans, dates, data). A number carries the 64 bits that
  \<open>CFNumberGetValue\<close> stores for \<open>kCFNumberLongLongType\<close>. A string carries its UTF-8
  bytes; \<open>cfstr\<close> returns a C string, which ends at the first NUL.
  \<open>CFDictionaryGetValue\<close> is modelled as a lookup that finds nothing in a value that is
  not a dictionary (the program calls it on the elements of the partition and volume
  arrays without checking their type).
\<close>

datatype cfval =
    CFString string
  | CFNumber "64 word"
  | CFArray "cfval list"
  | CFDictionary "(string \<times> cfval) list"
  | CFOther

fun CFDictionaryGetValue :: "cfval \<Rightarrow> string \<Rightarrow> cfval option" where
  "CFDictionaryGetValue (CFDictionary kvs) key = map_of kvs key"
| "CFDictionaryGetValue _ key = None"

fun cfstr :: "cfval option \<Rightarrow> string option" where
  "cfstr (Some (CFString s)) = Some (takeWhile (\<lambda>c. c \<noteq> CHR 0x00) s)"
| "cfstr _ = None"

fun cfint :: "cfval option \<Rightarrow> 64 word" where
  "cfint (Some (CFNumber v)) = v"
| "cfint _ = 0"

section \<open>Nodes and the flat index\<close>

text \<open>
  Every node is created by \<open>ensure_node\<close>, which appends it to the flat index, and no
  node leaves the index before the program exits. A pointer to a node is therefore
  modelled by the position of the node in the flat index, and the flat index is the
  store that the tree pointers (\<open>parent\<close>, \<open>children\<close>, the roots) refer to. The
  child array of a node is the list \<open>children\<close>; \<open>nchildren\<close> is its length.
  Memory allocation is taken to succeed.
\<close>

record node =
  name :: string
  size_bytes :: "64 word"
  type_n :: string
  mountpoint :: string
  fstype :: string
  label :: string
  uuid :: string
  parent :: "nat option"
  children :: "nat list"

definition node_create :: "string \<Rightarrow> 64 word \<Rightarrow> string option \<Rightarrow> node" where
  "node_create nm sz ty =
     \<lparr> name = nm, size_bytes = sz,
       type_n = (case ty of Some t \<Rightarrow> t | None \<Rightarrow> ''disk''),
       mountpoint = [], fstype = [], label = [], uuid = [],
       parent = None, children = [] \<rparr>"

definition node_add_child :: "node list \<Rightarrow> nat \<Rightarrow> nat \<Rightarrow> node list" where
  "node_add_child flat p c =
     (let flat1 = flat[c := (flat ! c)\<lparr>parent := Some p\<rparr>]
      in flat1[p := (flat1 ! p)\<lparr>children := children (flat1 ! p) @ [c]\<rparr>])"

primrec find_name :: "node list \<Rightarrow> string \<Rightarrow> nat option" where
  "find_name [] nm = None"
| "find_name (n # ns) nm = (if name n = nm then Some 0 else map_option Suc (find_name ns nm))"

definition ensure_node :: "node list \<Rightarrow> string \<Rightarrow> 64 word \<Rightarrow> string option \<Rightarrow> nat \<times> node list" where
  "ensure_node flat nm sz ty =
     (case find_name flat nm of
        Some i \<Rightarrow> (i, flat)
      | None \<Rightarrow> (length flat, flat @ [node_create nm sz ty]))"

definition add_partition :: "node list \<Rightarrow> nat option \<Rightarrow> cfval \<Rightarrow> node list" where
  "add_partition flat disk_node part =
     (case cfstr (CFDictionaryGetValue part ''DeviceIdentifier'') of
        None \<Rightarrow> flat
      | Some idstr \<Rightarrow>
          let sz = cfint (CFDictionaryGetValue part ''Size'');
              contentstr = (case CFDictionaryGetValue part ''Content'' of
                              None \<Rightarrow> None | Some c \<Rightarrow> cfstr (Some c));
              (child, flat1) = ensure_node flat idstr sz (Some ''part'');
              flat2 = flat1[child := (flat1 ! child)\<lparr>fstype := content_to_fstype contentstr 64\<rparr>]
          in (case disk_node of None \<Rightarrow> flat2 | Some d \<Rightarrow> node_add_child flat2 d child))"

definition add_apfs_volume :: "node list \<Rightarrow> nat option \<Rightarrow> cfval \<Rightarrow> node list" where
  "add_apfs_volume flat container_node vol =
     (case cfstr (CFDictionaryGetValue vol ''DeviceIdentifier'') of
        None \<Rightarrow> flat
      | Some idstr \<Rightarrow>
          let sz = cfint (CFDictionaryGetValue vol ''Size'');
              (child, flat1) = ensure_node flat idstr sz (Some ''part'');
              flat2 = (case container_node of None \<Rightarrow> flat1
                       | Some d \<Rightarrow> node_add_child flat1 d child);
              flat3 = (case cfstr (CFDictionaryGetValue vol ''MountPoint'') of
                         Some mp \<Rightarrow> if mp \<noteq> [] then flat2[child := (flat2 ! child)\<lparr>mountpoint := mp\<rparr>]
                                    else flat2
                       | None \<Rightarrow> flat2);
              flat4 = (case cfstr (CFDictionaryGetValue vol ''VolumeName'') of
                         Some lab \<Rightarrow> if lab \<noteq> [] then flat3[child := (flat3 ! child)\<lparr>label := lab\<rparr>]
                                     else flat3
                       | None \<Rightarrow> flat3);
              flat5 = (case cfstr (CFDictionaryGetValue vol ''VolumeUUID'') of
                         Some u \<Rightarrow> flat4[child := (flat4 ! child)\<lparr>uuid := u\<rparr>]
                       | None \<Rightarrow> flat4)
          in flat5[child := (flat5 ! child)\<lparr>fstype := ''apfs''\<rparr>])"

text \<open>The array stored under a key, when the value there is an array.\<close>

definition array_at :: "cfval \<Rightarrow> string \<Rightarrow> cfval list" where
  "array_at d key = (case CFDictionaryGetValue d key of Some (CFArray xs) \<Rightarrow> xs | _ \<Rightarrow> [])"

text \<open>
  One turn of the loop of \<open>collect_nodes\<close>. The state is the root array with the flat
  index; \<open>nroots\<close> is the length of the root list.
\<close>

definition collect_entry :: "nat option \<Rightarrow> cfval \<Rightarrow> nat list \<times> node list \<Rightarrow> nat list \<times> node list" where
  "collect_entry par d st =
     (case st of (roots, flat) \<Rightarrow>
      (case d of
         CFDictionary kvs \<Rightarrow>
           (case cfstr (CFDictionaryGetValue d ''DeviceIdentifier'') of
              None \<Rightarrow> (roots, flat)
            | Some idstr \<Rightarrow>
                let sz = cfint (CFDictionaryGetValue d ''Size'');
                    contentstr = (case CFDictionaryGetValue d ''Content'' of
                                    None \<Rightarrow> None | Some c \<Rightarrow> cfstr (Some c));
                    is_container = (case contentstr of None \<Rightarrow> False
                                    | Some c \<Rightarrow> strstr c ''Apple_APFS_Container'');
                    is_whole = (case contentstr of None \<Rightarrow> False
                                | Some c \<Rightarrow> strstr c ''GUID_partition_scheme'' \<or> is_container);
                    (disk_node, flat1) = ensure_node flat idstr sz
                                           (Some (if is_whole then ''disk'' else ''part''));
                    flat2 = (case contentstr of None \<Rightarrow> flat1
                             | Some c \<Rightarrow> flat1[disk_node := (flat1 ! disk_node)
                                             \<lparr>fstype := content_to_fstype (Some c) 64\<rparr>])
                in if par = None \<and> length roots \<ge> 64 then (roots, flat2)
                   else
                     let roots1 = (case par of None \<Rightarrow> roots @ [disk_node] | Some p \<Rightarrow> roots);
                         flat3 = (case par of None \<Rightarrow> flat2 | Some p \<Rightarrow> node_add_child flat2 p disk_node);
                         flat4 = foldl (\<lambda>fl p. add_partition fl (Some disk_node) p) flat3
                                   (array_at d ''Partitions'');
                         flat5 = foldl (\<lambda>fl v. add_apfs_volume fl (Some disk_node) v) flat4
                                   (array_at d ''APFSVolumes'')
                     in (roots1, flat5))
       | _ \<Rightarrow> (roots, flat)))"

definition collect_nodes :: "cfval list \<Rightarrow> nat option \<Rightarrow> nat list \<times> node list \<Rightarrow> nat list \<times> node list" where
  "collect_nodes all par st = foldl (\<lambda>s d. collect_entry par d s) st all"

section \<open>Sorting and the build\<close>

text \<open>
  The recursive walks of the program follow the child pointers of the store, and a store
  in which a node is its own descendant makes them recurse without end. Each walk
  therefore takes a bound on the depth of the recursion and returns \<open>None\<close> when the
  bound is reached: \<open>None\<close> for every bound means that the C function does not return.
  A loop over the children of a node runs over the child list read when the loop starts;
  the walks that return never change the child list of a node whose loop is running.
\<close>

primrec fold_opt :: "('a \<Rightarrow> 's \<Rightarrow> 's option) \<Rightarrow> 'a list \<Rightarrow> 's \<Rightarrow> 's option" where
  "fold_opt f [] s = Some s"
| "fold_opt f (x # xs) s = (case f x s of None \<Rightarrow> None | Some s' \<Rightarrow> fold_opt f xs s')"

definition node_cmp :: "node list \<Rightarrow> nat \<Rightarrow> nat \<Rightarrow> int" where
  "node_cmp flat a b = name_cmp (Some (name (flat ! a))) (Some (name (flat ! b)))"

text \<open>
  \<open>qsort\<close> belongs to libc, not to the program: it is a parameter \<open>qs\<close> of the model,
  which takes the comparator and the array and returns the array it leaves. What the
  theorems need of it is that it returns a rearrangement of its input, and for the order
  of the result that it sorts.
\<close>

type_synonym qsort_fn = "(nat \<Rightarrow> nat \<Rightarrow> int) \<Rightarrow> nat list \<Rightarrow> nat list"

definition qsort_permutes :: "qsort_fn \<Rightarrow> bool" where
  "qsort_permutes qs = (\<forall>c xs. mset (qs c xs) = mset xs)"

text \<open>
  The contract of \<open>qsort\<close>: the array it leaves is a rearrangement of the one it got, and
  it is in ascending order of the comparator, provided that the comparator orders the
  elements of the array consistently (any two are comparable, and the order is
  transitive).
\<close>

definition consistent_on :: "(nat \<Rightarrow> nat \<Rightarrow> int) \<Rightarrow> nat set \<Rightarrow> bool" where
  "consistent_on c S =
     ((\<forall>a \<in> S. \<forall>b \<in> S. c a b \<le> 0 \<or> c b a \<le> 0)
      \<and> (\<forall>a \<in> S. \<forall>b \<in> S. \<forall>d \<in> S. c a b \<le> 0 \<and> c b d \<le> 0 \<longrightarrow> c a d \<le> 0))"

definition qsort_sorts :: "qsort_fn \<Rightarrow> bool" where
  "qsort_sorts qs =
     (\<forall>c xs. mset (qs c xs) = mset xs
             \<and> (consistent_on c (set xs) \<longrightarrow> sorted_wrt (\<lambda>a b. c a b \<le> 0) (qs c xs)))"

primrec sort_children :: "nat \<Rightarrow> qsort_fn \<Rightarrow> node list \<Rightarrow> nat \<Rightarrow> node list option" where
  "sort_children 0 qs flat n = None"
| "sort_children (Suc k) qs flat n =
     (if length (children (flat ! n)) \<le> 1 then Some flat
      else
        let flat1 = flat[n := (flat ! n)\<lparr>children := qs (node_cmp flat) (children (flat ! n))\<rparr>]
        in fold_opt (\<lambda>c fl. sort_children k qs fl c) (children (flat1 ! n)) flat1)"

text \<open>The value \<open>build_tree\<close> returns (\<open>-1\<close> or \<open>0\<close>) with the arrays it has filled.\<close>

datatype build_result = Build_Failed | Built "nat list" "node list"

definition build_tree :: "nat \<Rightarrow> qsort_fn \<Rightarrow> cfval \<Rightarrow> build_result option" where
  "build_tree fuel qs list_plist =
     (case CFDictionaryGetValue list_plist ''AllDisksAndPartitions'' of
        Some (CFArray all) \<Rightarrow>
          (case collect_nodes all None ([], []) of (roots, flat) \<Rightarrow>
             (case fold_opt (\<lambda>r fl. sort_children fuel qs fl r) roots flat of
                None \<Rightarrow> None
              | Some flat1 \<Rightarrow> Some (Built (qs (node_cmp flat1) roots) flat1)))
      | _ \<Rightarrow> Some Build_Failed)"

section \<open>Mount points and per-device information\<close>

primrec set_mountpoint_recursive :: "nat \<Rightarrow> node list \<Rightarrow> nat \<Rightarrow> string \<Rightarrow> string \<Rightarrow> node list option" where
  "set_mountpoint_recursive 0 flat n from target = None"
| "set_mountpoint_recursive (Suc k) flat n from target =
     (if name (flat ! n) = from then Some (flat[n := (flat ! n)\<lparr>mountpoint := target\<rparr>])
      else fold_opt (\<lambda>c fl. set_mountpoint_recursive k fl c from target) (children (flat ! n)) flat)"

text \<open>
  The mount table is what \<open>getmntinfo\<close> gives: \<open>None\<close> when it reports no entries
  (\<open>count <= 0\<close>), otherwise the pairs of \<open>f_mntfromname\<close> and \<open>f_mntonname\<close>.
\<close>

definition mount_entry :: "nat \<Rightarrow> nat list \<Rightarrow> string \<times> string \<Rightarrow> node list \<Rightarrow> node list option" where
  "mount_entry fuel roots e flat =
     (case e of (from, target) \<Rightarrow>
        if \<not> starts_with from ''/dev/'' then Some flat
        else fold_opt (\<lambda>r fl. set_mountpoint_recursive fuel fl r (drop 5 from) target) roots flat)"

definition fill_mountpoints :: "nat \<Rightarrow> (string \<times> string) list option \<Rightarrow> nat list \<Rightarrow> node list \<Rightarrow> node list option" where
  "fill_mountpoints fuel mntinfo roots flat =
     (case mntinfo of
        None \<Rightarrow> Some flat
      | Some mntbuf \<Rightarrow> fold_opt (mount_entry fuel roots) mntbuf flat)"

text \<open>
  \<open>diskutil info -plist\<close> is the environment: a function from the device name to the
  property list parsed from the output of the command, \<open>None\<close> when the command or the
  parser fails.
\<close>

definition get_info_plist :: "(string \<Rightarrow> cfval option) \<Rightarrow> string \<Rightarrow> cfval option" where
  "get_info_plist diskutil_info device =
     (case diskutil_info device of Some (CFDictionary kvs) \<Rightarrow> Some (CFDictionary kvs) | _ \<Rightarrow> None)"

definition fill_info :: "(string \<Rightarrow> cfval option) \<Rightarrow> node \<Rightarrow> node" where
  "fill_info diskutil_info n =
     (case get_info_plist diskutil_info (name n) of
        None \<Rightarrow> n
      | Some info \<Rightarrow>
          let n1 = (case CFDictionaryGetValue info ''FilesystemType'' of
                      Some v \<Rightarrow> (case cfstr (Some v) of Some s \<Rightarrow> n\<lparr>fstype := s\<rparr> | None \<Rightarrow> n)
                    | None \<Rightarrow> n);
              n2 = (case CFDictionaryGetValue info ''VolumeName'' of
                      Some v \<Rightarrow> (case cfstr (Some v) of
                                   Some s \<Rightarrow> if s \<noteq> [] then n1\<lparr>label := s\<rparr> else n1
                                 | None \<Rightarrow> n1)
                    | None \<Rightarrow> n1);
              n3 = (if label n2 = [] then
                      (case CFDictionaryGetValue info ''MediaName'' of
                         Some v \<Rightarrow> (case cfstr (Some v) of
                                      Some s \<Rightarrow> if s \<noteq> [] then n2\<lparr>label := s\<rparr> else n2
                                    | None \<Rightarrow> n2)
                       | None \<Rightarrow> n2)
                    else n2);
              v4 = (case CFDictionaryGetValue info ''VolumeUUID'' of
                      Some v \<Rightarrow> Some v
                    | None \<Rightarrow> CFDictionaryGetValue info ''DiskUUID'');
              n4 = (case v4 of
                      Some v \<Rightarrow> (case cfstr (Some v) of Some s \<Rightarrow> n3\<lparr>uuid := s\<rparr> | None \<Rightarrow> n3)
                    | None \<Rightarrow> n3)
          in (case CFDictionaryGetValue info ''MountPoint'' of
                Some v \<Rightarrow> (case cfstr (Some v) of
                             Some s \<Rightarrow> if s \<noteq> [] then n4\<lparr>mountpoint := s\<rparr> else n4
                           | None \<Rightarrow> n4)
              | None \<Rightarrow> n4))"

text \<open>The loop of \<open>main\<close> under \<open>-f\<close>: \<open>fill_info\<close> on every node of the flat index.\<close>

definition fill_info_all :: "(string \<Rightarrow> cfval option) \<Rightarrow> node list \<Rightarrow> node list" where
  "fill_info_all diskutil_info flat =
     foldl (\<lambda>fl i. fl[i := fill_info diskutil_info (fl ! i)]) flat [0..<length flat]"

section \<open>Columns\<close>

datatype col = COL_NAME | COL_SIZE | COL_TYPE | COL_MOUNTPOINT | COL_FSTYPE | COL_LABEL | COL_UUID

fun col_names :: "col \<Rightarrow> string" where
  "col_names COL_NAME = ''NAME''"
| "col_names COL_SIZE = ''SIZE''"
| "col_names COL_TYPE = ''TYPE''"
| "col_names COL_MOUNTPOINT = ''MOUNTPOINT''"
| "col_names COL_FSTYPE = ''FSTYPE''"
| "col_names COL_LABEL = ''LABEL''"
| "col_names COL_UUID = ''UUID''"

text \<open>The values that \<open>c\<close> takes in \<open>for (c = 0; c < COL_MAX; c++)\<close>, in order.\<close>

definition all_cols :: "col list" where
  "all_cols = [COL_NAME, COL_SIZE, COL_TYPE, COL_MOUNTPOINT, COL_FSTYPE, COL_LABEL, COL_UUID]"

text \<open>\<open>tolower\<close> in the C locale: the 26 capital letters map to the small ones.\<close>

definition tolower :: "char \<Rightarrow> char" where
  "tolower c =
     (case map_of (zip ''ABCDEFGHIJKLMNOPQRSTUVWXYZ'' ''abcdefghijklmnopqrstuvwxyz'') c of
        Some l \<Rightarrow> l
      | None \<Rightarrow> c)"

text \<open>\<open>strcasecmp(a, b) == 0\<close>\<close>

definition strcasecmp_eq :: "string \<Rightarrow> string \<Rightarrow> bool" where
  "strcasecmp_eq a b = (map tolower a = map tolower b)"

text \<open>
  The tokens that the calls \<open>strtok(s, ",")\<close>, \<open>strtok(NULL, ",")\<close>, ... return: each call
  skips the commas in front and returns the bytes up to the next comma.
\<close>

function strtok_all :: "string \<Rightarrow> string list" where
  "strtok_all s =
     (let s1 = dropWhile (\<lambda>c. c = CHR '','') s
      in if s1 = [] then []
         else takeWhile (\<lambda>c. c \<noteq> CHR '','') s1 # strtok_all (dropWhile (\<lambda>c. c \<noteq> CHR '','') s1))"
  by pat_completeness auto
termination
proof (relation "measure length")
  show "wf (measure length)" by simp
next
  fix s s1 :: string
  assume s1: "s1 = dropWhile (\<lambda>c. c = CHR '','') s" and ne: "s1 \<noteq> []"
  have gen: "dropWhile (\<lambda>c. c = d) t \<noteq> [] \<Longrightarrow>
        length (dropWhile (\<lambda>c. c \<noteq> d) (dropWhile (\<lambda>c. c = d) t)) < length t" for d :: char and t
  proof (induction t)
    case Nil
    then show ?case by simp
  next
    case (Cons a t)
    show ?case
    proof (cases "a = d")
      case True
      with Cons show ?thesis by simp
    next
      case False
      have "length (dropWhile (\<lambda>c. c \<noteq> d) t) \<le> length t" by (rule length_dropWhile_le)
      with False show ?thesis by simp
    qed
  qed
  from ne have "dropWhile (\<lambda>c. c = CHR '','') s \<noteq> []" unfolding s1 .
  from gen [OF this] show "(dropWhile (\<lambda>c. c \<noteq> CHR '','') s1, s) \<in> measure length"
    unfolding s1 by simp
qed

declare strtok_all.simps [simp del]

definition find_col :: "string \<Rightarrow> col option" where
  "find_col tok = List.find (\<lambda>c. strcasecmp_eq tok (col_names c)) all_cols"

text \<open>
  The loop of \<open>parse_columns\<close> over the tokens; the result is the value returned with the
  columns stored so far (\<open>ncols\<close> is their number).
\<close>

fun parse_tokens :: "string list \<Rightarrow> col list \<Rightarrow> int \<times> col list" where
  "parse_tokens [] cols = (0, cols)"
| "parse_tokens (tok # toks) cols =
     (case find_col (dropWhile (\<lambda>c. c = CHR '' '') tok) of
        None \<Rightarrow> parse_tokens toks cols
      | Some c \<Rightarrow> if length cols \<ge> 32 then (- 1, cols) else parse_tokens toks (cols @ [c]))"

text \<open>\<open>strdup_ok\<close> tells whether the \<open>strdup\<close> of the option string succeeds.\<close>

definition parse_columns :: "bool \<Rightarrow> string \<Rightarrow> int \<times> col list" where
  "parse_columns strdup_ok ostr =
     (if \<not> strdup_ok then (- 1, []) else parse_tokens (strtok_all ostr) [])"

definition DEFAULT_COLS :: string where
  "DEFAULT_COLS = ''NAME,SIZE,TYPE,MOUNTPOINT''"

definition parse_output_option :: "bool \<Rightarrow> string option \<Rightarrow> int \<times> col list" where
  "parse_output_option strdup_ok ostr =
     (case ostr of
        None \<Rightarrow> parse_columns strdup_ok DEFAULT_COLS
      | Some s \<Rightarrow> if s = [] then parse_columns strdup_ok DEFAULT_COLS
                  else parse_columns strdup_ok s)"

section \<open>Sizes\<close>

text \<open>
  \<open>fmt_size\<close> computes in \<open>double\<close>. The conversion of a 64-bit integer rounds to 53
  significant bits, to nearest with ties to even; the divisions by 1024 are exact, since
  they only lower the exponent. The value is therefore a rational number that the model
  follows exactly. \<open>%.1f\<close> prints it rounded to one decimal, ties to even.
\<close>

fun bitlen :: "nat \<Rightarrow> nat" where
  "bitlen n = (if n = 0 then 0 else Suc (bitlen (n div 2)))"

declare bitlen.simps [simp del]

definition u64_to_double :: "nat \<Rightarrow> rat" where
  "u64_to_double n =
     (if n < 2 ^ 53 then of_nat n
      else
        let e = bitlen n - 53; q = n div 2 ^ e; r = n mod 2 ^ e;
            q1 = (if 2 * r > 2 ^ e \<or> (2 * r = 2 ^ e \<and> odd q) then q + 1 else q)
        in of_nat (q1 * 2 ^ e))"

function fmt_scale :: "rat \<Rightarrow> nat \<Rightarrow> rat \<times> nat" where
  "fmt_scale v u = (if v \<ge> 1024 \<and> u < 5 then fmt_scale (v / 1024) (u + 1) else (v, u))"
  by pat_completeness auto
termination
  by (relation "measure (\<lambda>(v, u). 5 - u)") auto

declare fmt_scale.simps [simp del]

definition round_half_even :: "rat \<Rightarrow> int" where
  "round_half_even x =
     (let f = \<lfloor>x\<rfloor>; d = x - of_int f
      in if d < 1 / 2 then f else if d > 1 / 2 then f + 1 else if even f then f else f + 1)"

function dec_nat :: "nat \<Rightarrow> string" where
  "dec_nat n = (if n < 10 then [''0123456789'' ! n]
                else dec_nat (n div 10) @ [''0123456789'' ! (n mod 10)])"
  by pat_completeness auto
termination
  by (relation "measure id") auto

declare dec_nat.simps [simp del]

text \<open>\<open>%.1f\<close> of a value that is not negative.\<close>

definition fmt_1f :: "rat \<Rightarrow> string" where
  "fmt_1f v = (let t = nat (round_half_even (v * 10)) in dec_nat (t div 10) @ ''.'' @ dec_nat (t mod 10))"

definition units :: string where
  "units = ''BKMGTP''"

definition fmt_size :: "64 word \<Rightarrow> nat \<Rightarrow> string" where
  "fmt_size bytes bufsz =
     (case fmt_scale (u64_to_double (unat bytes)) 0 of
        (v, u) \<Rightarrow> snprintf bufsz (fmt_1f v @ [units ! u]))"

section \<open>Rendering\<close>

text \<open>
  What the program writes to standard output is a string of bytes; each printing function
  of the model returns the bytes that the C function writes. The connectors of the tree
  are the UTF-8 bytes of the source text.
\<close>

definition nl :: string where
  "nl = [CHR 0x0A]"

definition dq :: string where
  "dq = [CHR 0x22]"

definition box_vert :: string where
  "box_vert = [CHR 0xE2, CHR 0x94, CHR 0x82]"

definition box_horiz :: string where
  "box_horiz = [CHR 0xE2, CHR 0x94, CHR 0x80]"

definition box_last :: string where
  "box_last = [CHR 0xE2, CHR 0x94, CHR 0x94]"

definition box_tee :: string where
  "box_tee = [CHR 0xE2, CHR 0x94, CHR 0x9C]"

text \<open>The \<open>switch\<close> of the tree rows: every column but NAME prints a space and its value.\<close>

fun tree_cell :: "node \<Rightarrow> string \<Rightarrow> col \<Rightarrow> string" where
  "tree_cell n sizebuf COL_NAME = []"
| "tree_cell n sizebuf COL_SIZE = '' '' @ sizebuf"
| "tree_cell n sizebuf COL_TYPE = '' '' @ type_n n"
| "tree_cell n sizebuf COL_MOUNTPOINT = '' '' @ mountpoint n"
| "tree_cell n sizebuf COL_FSTYPE = '' '' @ fstype n"
| "tree_cell n sizebuf COL_LABEL = '' '' @ label n"
| "tree_cell n sizebuf COL_UUID = '' '' @ uuid n"

text \<open>The loop \<open>for (c = 1; c < ncols; c++)\<close> followed by the newline.\<close>

definition tree_cells :: "node \<Rightarrow> col list \<Rightarrow> string" where
  "tree_cells n cols = concat (map (tree_cell n (fmt_size (size_bytes n) 32)) (tl cols)) @ nl"

primrec print_tree :: "nat \<Rightarrow> node list \<Rightarrow> nat \<Rightarrow> col list \<Rightarrow> string \<Rightarrow> bool \<Rightarrow> string option" where
  "print_tree 0 flat n cols prefix last_sib = None"
| "print_tree (Suc k) flat n cols prefix last_sib =
     (let child_prefix = snprintf 256 (prefix @ (if last_sib then '' '' else box_vert) @ ''  '');
          chs = children (flat ! n)
      in fold_opt
           (\<lambda>(ch, i) out.
              let is_last = (i = length chs - 1) in
              case print_tree k flat ch cols child_prefix is_last of
                None \<Rightarrow> None
              | Some sub \<Rightarrow>
                  Some (out @ prefix @ (if is_last then box_last else box_tee) @ box_horiz @ box_horiz
                        @ '' '' @ name (flat ! ch) @ tree_cells (flat ! ch) cols @ sub))
           (zip chs [0..<length chs]) [])"

text \<open>The tree branch of \<open>main\<close>: the header, then every root with its subtree.\<close>

definition join_sp :: "string list \<Rightarrow> string" where
  "join_sp xs = (case xs of [] \<Rightarrow> [] | y # ys \<Rightarrow> y @ concat (map (\<lambda>z. '' '' @ z) ys))"

definition header :: "col list \<Rightarrow> string" where
  "header cols = join_sp (map col_names cols) @ nl"

definition print_forest :: "nat \<Rightarrow> node list \<Rightarrow> nat list \<Rightarrow> col list \<Rightarrow> string option" where
  "print_forest fuel flat roots cols =
     fold_opt
       (\<lambda>(r, i) out.
          case print_tree fuel flat r cols ''  ''
                 (i = length roots - 1 \<and> children (flat ! r) = []) of
            None \<Rightarrow> None
          | Some sub \<Rightarrow> Some (out @ name (flat ! r) @ tree_cells (flat ! r) cols @ sub))
       (zip roots [0..<length roots]) (header cols)"

text \<open>
  The list format. \<open>print_list_dfs\<close> receives \<open>sizebuf\<close> as a pointer, so the
  \<open>sizeof(sizebuf)\<close> it passes to \<open>fmt_size\<close> is the size of a pointer, 8.
\<close>

fun list_cell :: "node \<Rightarrow> string \<Rightarrow> col \<Rightarrow> string" where
  "list_cell n sizebuf COL_NAME = name n"
| "list_cell n sizebuf COL_SIZE = sizebuf"
| "list_cell n sizebuf COL_TYPE = type_n n"
| "list_cell n sizebuf COL_MOUNTPOINT = mountpoint n"
| "list_cell n sizebuf COL_FSTYPE = fstype n"
| "list_cell n sizebuf COL_LABEL = label n"
| "list_cell n sizebuf COL_UUID = uuid n"

primrec print_list_dfs :: "nat \<Rightarrow> node list \<Rightarrow> nat \<Rightarrow> col list \<Rightarrow> string option" where
  "print_list_dfs 0 flat n cols = None"
| "print_list_dfs (Suc k) flat n cols =
     fold_opt
       (\<lambda>ch out. case print_list_dfs k flat ch cols of
                    None \<Rightarrow> None | Some sub \<Rightarrow> Some (out @ sub))
       (children (flat ! n))
       (join_sp (map (list_cell (flat ! n) (fmt_size (size_bytes (flat ! n)) 8)) cols) @ nl)"

definition print_list :: "nat \<Rightarrow> node list \<Rightarrow> nat list \<Rightarrow> col list \<Rightarrow> string option" where
  "print_list fuel flat roots cols =
     fold_opt
       (\<lambda>r out. case print_list_dfs fuel flat r cols of
                   None \<Rightarrow> None | Some sub \<Rightarrow> Some (out @ sub))
       roots (header cols)"

text \<open>The JSON format. \<open>%*s\<close> with an empty string writes \<open>depth * 2\<close> spaces.\<close>

definition json_fields :: "node \<Rightarrow> string" where
  "json_fields n =
     ''{'' @ dq @ ''name'' @ dq @ '':'' @ dq @ name n @ dq
     @ '','' @ dq @ ''size'' @ dq @ '':'' @ dec_nat (unat (size_bytes n))
     @ '','' @ dq @ ''type'' @ dq @ '':'' @ dq @ type_n n @ dq
     @ '','' @ dq @ ''mountpoint'' @ dq @ '':'' @ dq @ mountpoint n @ dq
     @ '','' @ dq @ ''fstype'' @ dq @ '':'' @ dq @ fstype n @ dq
     @ '','' @ dq @ ''label'' @ dq @ '':'' @ dq @ label n @ dq
     @ '','' @ dq @ ''uuid'' @ dq @ '':'' @ dq @ uuid n @ dq"

primrec emit_json :: "nat \<Rightarrow> node list \<Rightarrow> nat \<Rightarrow> nat \<Rightarrow> bool \<Rightarrow> string option" where
  "emit_json 0 flat n depth first = None"
| "emit_json (Suc k) flat n depth first =
     (let chs = children (flat ! n);
          start = (if first then [] else '','' @ nl) @ replicate (depth * 2) CHR '' ''
                  @ json_fields (flat ! n)
      in if chs = [] then Some (start @ ''}'')
         else
           (case fold_opt
                   (\<lambda>(ch, i) out. case emit_json k flat ch (depth + 1) (i = 0) of
                                     None \<Rightarrow> None | Some sub \<Rightarrow> Some (out @ sub))
                   (zip chs [0..<length chs])
                   (start @ '','' @ dq @ ''children'' @ dq @ '':['') of
              None \<Rightarrow> None
            | Some out \<Rightarrow> Some (out @ nl @ replicate (depth * 2) CHR '' '' @ '']'' @ ''}'')))"

definition print_json :: "nat \<Rightarrow> node list \<Rightarrow> nat list \<Rightarrow> string option" where
  "print_json fuel flat roots =
     (case fold_opt
             (\<lambda>(r, i) out. case emit_json fuel flat r 1 True of
                              None \<Rightarrow> None
                            | Some sub \<Rightarrow> Some (out @ (if i \<noteq> 0 then '','' @ nl else []) @ sub))
             (zip roots [0..<length roots])
             (''{'' @ dq @ ''blockdevices'' @ dq @ '':['' @ nl) of
        None \<Rightarrow> None
      | Some out \<Rightarrow> Some (out @ nl @ '']}'' @ nl))"

section \<open>The program\<close>

text \<open>
  \<open>main\<close> after \<open>getopt\<close>: the options, and the environment that the run reads (whether
  \<open>strdup\<close> succeeds in \<open>parse_columns\<close>, the property list parsed from the output of
  \<open>diskutil list -plist\<close> if there is one, the mount table, \<open>diskutil info -plist\<close>).
  The result is the exit status with the bytes written to standard output and to standard
  error, or the error that ends the run before \<open>main\<close> returns; \<open>None\<close> when a recursive
  walk reaches the depth bound.
\<close>

record opts =
  opt_f :: bool
  opt_J :: bool
  opt_list :: bool
  opt_o :: "string option"

record env =
  strdup_ok :: bool
  diskutil_list :: "cfval option"
  mntinfo :: "(string \<times> string) list option"
  diskutil_info :: "string \<Rightarrow> cfval option"

definition get_list_plist :: "cfval option \<Rightarrow> cfval option" where
  "get_list_plist plist =
     (case plist of Some (CFDictionary kvs) \<Rightarrow> Some (CFDictionary kvs) | _ \<Rightarrow> None)"

definition render :: "nat \<Rightarrow> opts \<Rightarrow> col list \<Rightarrow> nat list \<Rightarrow> node list \<Rightarrow> string option" where
  "render fuel ops cols roots flat =
     (if opt_J ops then print_json fuel flat roots
      else if opt_list ops then print_list fuel flat roots cols
      else print_forest fuel flat roots cols)"

text \<open>
  The teardown of \<open>main\<close> calls \<open>node_free\<close> on every root. \<open>node_free\<close> frees the
  strings of the node, then the subtrees of its children, then the child array and the
  node. The state is the list of the nodes whose strings have been freed. A node that is
  reached again has its name passed to \<open>free\<close> a second time: the behaviour of the program
  is undefined from there (the allocator ends the process), which is the error
  \<open>Double_Free\<close> of the model.
\<close>

datatype error = Double_Free

primrec fold_free :: "('a \<Rightarrow> 's \<Rightarrow> (error + 's) option) \<Rightarrow> 'a list \<Rightarrow> 's \<Rightarrow> (error + 's) option" where
  "fold_free f [] s = Some (Inr s)"
| "fold_free f (x # xs) s =
     (case f x s of
        None \<Rightarrow> None
      | Some (Inl err) \<Rightarrow> Some (Inl err)
      | Some (Inr s') \<Rightarrow> fold_free f xs s')"

primrec node_free :: "nat \<Rightarrow> node list \<Rightarrow> nat \<Rightarrow> nat list \<Rightarrow> (error + nat list) option" where
  "node_free 0 flat n freed = None"
| "node_free (Suc k) flat n freed =
     (if n \<in> set freed then Some (Inl Double_Free)
      else fold_free (\<lambda>c fr. node_free k flat c fr) (children (flat ! n)) (n # freed))"

text \<open>The closing loop of \<open>main\<close>: \<open>node_free\<close> on the roots, in their order.\<close>

definition free_roots :: "nat \<Rightarrow> node list \<Rightarrow> nat list \<Rightarrow> (error + nat list) option" where
  "free_roots fuel flat roots = fold_free (\<lambda>r fr. node_free fuel flat r fr) roots []"

text \<open>\<open>main\<close> from the call of \<open>get_list_plist\<close> on, with the columns it has parsed.\<close>

definition main_run :: "nat \<Rightarrow> qsort_fn \<Rightarrow> opts \<Rightarrow> env \<Rightarrow> col list \<Rightarrow> (error + int \<times> string \<times> string) option" where
  "main_run fuel qs ops e cols =
     (case get_list_plist (diskutil_list e) of
        None \<Rightarrow> Some (Inr (1, [], ''mlsblk: failed to run diskutil list -plist'' @ nl))
      | Some list_plist \<Rightarrow>
          (case build_tree fuel qs list_plist of
             None \<Rightarrow> None
           | Some Build_Failed \<Rightarrow> Some (Inr (1, [], ''mlsblk: failed to parse disk list'' @ nl))
           | Some (Built roots flat) \<Rightarrow>
               (case fill_mountpoints fuel (mntinfo e) roots flat of
                  None \<Rightarrow> None
                | Some flat1 \<Rightarrow>
                    let flat2 = (if opt_f ops then fill_info_all (diskutil_info e) flat1 else flat1)
                    in (case render fuel ops cols roots flat2 of
                          None \<Rightarrow> None
                        | Some out \<Rightarrow>
                            (case free_roots fuel flat2 roots of
                               None \<Rightarrow> None
                             | Some (Inl err) \<Rightarrow> Some (Inl err)
                             | Some (Inr freed) \<Rightarrow> Some (Inr (0, out, [])))))))"

definition main :: "nat \<Rightarrow> qsort_fn \<Rightarrow> opts \<Rightarrow> env \<Rightarrow> (error + int \<times> string \<times> string) option" where
  "main fuel qs ops e =
     (case parse_output_option (strdup_ok e) (opt_o ops) of (rc, cols0) \<Rightarrow>
      if rc \<noteq> 0 then Some (Inr (1, [], ''mlsblk: invalid -o columns'' @ nl))
      else
        main_run fuel qs ops e
          (if opt_f ops \<and> opt_o ops = None
           then snd (parse_columns (strdup_ok e) ''NAME,SIZE,TYPE,FSTYPE,MOUNTPOINT,LABEL,UUID'')
           else cols0))"

section \<open>A sorting function and the inputs of the examples\<close>

text \<open>
  An insertion sort, as one function that can stand for \<open>qsort\<close> where a theorem needs a
  concrete one.
\<close>

fun insert_by :: "(nat \<Rightarrow> nat \<Rightarrow> int) \<Rightarrow> nat \<Rightarrow> nat list \<Rightarrow> nat list" where
  "insert_by c x [] = [x]"
| "insert_by c x (y # ys) = (if c x y \<le> 0 then x # y # ys else y # insert_by c x ys)"

definition insertion_qsort :: qsort_fn where
  "insertion_qsort c xs = foldr (insert_by c) xs []"

text \<open>
  The scenario of the specification: the bulk listing with the disk \<open>disk0\<close> and its
  partition \<open>disk0s1\<close>, and the mount table with \<open>/dev/disk0s1\<close> on \<open>/\<close>.
\<close>

definition scenario_part :: cfval where
  "scenario_part =
     CFDictionary [(''DeviceIdentifier'', CFString ''disk0s1''),
                   (''Size'', CFNumber 121213132800),
                   (''Content'', CFString ''Apple_APFS'')]"

definition scenario_disk :: cfval where
  "scenario_disk =
     CFDictionary [(''DeviceIdentifier'', CFString ''disk0''),
                   (''Size'', CFNumber 121332826112),
                   (''Content'', CFString ''GUID_partition_scheme''),
                   (''Partitions'', CFArray [scenario_part])]"

definition scenario_listing :: cfval where
  "scenario_listing = CFDictionary [(''AllDisksAndPartitions'', CFArray [scenario_disk])]"

definition scenario_env :: env where
  "scenario_env =
     \<lparr> strdup_ok = True, diskutil_list = Some scenario_listing,
       mntinfo = Some [(''/dev/disk0s1'', ''/'')], diskutil_info = (\<lambda>device. None) \<rparr>"

definition default_opts :: opts where
  "default_opts = \<lparr> opt_f = False, opt_J = False, opt_list = False, opt_o = None \<rparr>"

text \<open>The two nodes that the scenario builds; the second with a given mount point.\<close>

definition scenario_disk0 :: node where
  "scenario_disk0 =
     \<lparr> name = ''disk0'', size_bytes = 121332826112, type_n = ''disk'', mountpoint = [],
       fstype = [], label = [], uuid = [], parent = None, children = [1] \<rparr>"

definition scenario_disk0s1 :: "string \<Rightarrow> node" where
  "scenario_disk0s1 mp =
     \<lparr> name = ''disk0s1'', size_bytes = 121213132800, type_n = ''part'', mountpoint = mp,
       fstype = ''apfs'', label = [], uuid = [], parent = Some 0, children = [] \<rparr>"

section \<open>The identifiers of a bulk listing\<close>

text \<open>
  Notions that the statements about the build use. The identifier of an entry is the
  string stored under \<open>DeviceIdentifier\<close>; an entry without one (or an entry that is not a
  dictionary) is skipped by the build. \<open>add_name\<close> is what a request for an identifier
  does to the list of the names in the flat index.
\<close>

definition entry_id :: "cfval \<Rightarrow> string option" where
  "entry_id d = cfstr (CFDictionaryGetValue d ''DeviceIdentifier'')"

definition top_entries :: "cfval list \<Rightarrow> cfval list" where
  "top_entries all = filter (\<lambda>d. entry_id d \<noteq> None) all"

definition top_ids :: "cfval list \<Rightarrow> string list" where
  "top_ids all = List.map_filter entry_id all"

definition child_ids :: "cfval \<Rightarrow> string list" where
  "child_ids d =
     List.map_filter entry_id (array_at d ''Partitions'')
     @ List.map_filter entry_id (array_at d ''APFSVolumes'')"

definition add_name :: "string list \<Rightarrow> string \<Rightarrow> string list" where
  "add_name ns x = (if x \<in> set ns then ns else ns @ [x])"

text \<open>
  The identifiers that the build asks \<open>ensure_node\<close> for, in the order of the requests,
  when it starts on a list of entries with \<open>n\<close> roots stored: an entry with an identifier
  requests it, and requests those of its partitions and volumes while fewer than 64 roots
  are stored.
\<close>

fun requested :: "nat \<Rightarrow> cfval list \<Rightarrow> string list" where
  "requested n [] = []"
| "requested n (d # ds) =
     (case entry_id d of
        None \<Rightarrow> requested n ds
      | Some x \<Rightarrow> x # (if n < 64 then child_ids d @ requested (Suc n) ds else requested n ds))"

text \<open>
  Two stores that differ at most in the order of the child lists: what sorting changes.
\<close>

definition same_but_child_order :: "node list \<Rightarrow> node list \<Rightarrow> bool" where
  "same_but_child_order a b =
     (length b = length a
      \<and> (\<forall>i < length a. b ! i = (a ! i)\<lparr>children := children (b ! i)\<rparr>
                          \<and> mset (children (b ! i)) = mset (children (a ! i))))"

text \<open>
  Every root and every child pointer of the store points to a node of the store whose
  name is in \<open>M\<close>.
\<close>

definition attached_in :: "string set \<Rightarrow> nat list \<Rightarrow> node list \<Rightarrow> bool" where
  "attached_in M roots flat =
     ((\<forall>r \<in> set roots. r < length flat \<and> name (flat ! r) \<in> M)
      \<and> (\<forall>n \<in> set flat. \<forall>c \<in> set (children n). c < length flat \<and> name (flat ! c) \<in> M))"

text \<open>
  A bulk listing in which identifiers repeat: \<open>disk0\<close> lists the partition \<open>disk0s1\<close> twice,
  and \<open>disk1\<close> lists it once more.
\<close>

definition shared_part :: cfval where
  "shared_part = CFDictionary [(''DeviceIdentifier'', CFString ''disk0s1'')]"

definition shared_entries :: "cfval list" where
  "shared_entries =
     [CFDictionary [(''DeviceIdentifier'', CFString ''disk0''),
                    (''Partitions'', CFArray [shared_part, shared_part])],
      CFDictionary [(''DeviceIdentifier'', CFString ''disk1''),
                    (''Partitions'', CFArray [shared_part])]]"

definition shared_listing :: cfval where
  "shared_listing = CFDictionary [(''AllDisksAndPartitions'', CFArray shared_entries)]"

text \<open>The store that the build leaves for it.\<close>

definition shared_flat :: "node list" where
  "shared_flat =
     [\<lparr> name = ''disk0'', size_bytes = 0, type_n = ''part'', mountpoint = [], fstype = [],
         label = [], uuid = [], parent = None, children = [1, 1] \<rparr>,
      \<lparr> name = ''disk0s1'', size_bytes = 0, type_n = ''part'', mountpoint = [], fstype = [],
         label = [], uuid = [], parent = Some 2, children = [] \<rparr>,
      \<lparr> name = ''disk1'', size_bytes = 0, type_n = ''part'', mountpoint = [], fstype = [],
         label = [], uuid = [], parent = None, children = [1] \<rparr>]"

definition shared_env :: env where
  "shared_env =
     \<lparr> strdup_ok = True, diskutil_list = Some shared_listing,
       mntinfo = None, diskutil_info = (\<lambda>device. None) \<rparr>"

text \<open>A bulk listing in which \<open>disk0\<close> lists itself as its partition.\<close>

definition cyclic_listing :: cfval where
  "cyclic_listing =
     CFDictionary [(''AllDisksAndPartitions'', CFArray
       [CFDictionary [(''DeviceIdentifier'', CFString ''disk0''),
                      (''Partitions'', CFArray
                         [CFDictionary [(''DeviceIdentifier'', CFString ''disk0'')]])]])]"

definition cyclic_env :: env where
  "cyclic_env =
     \<lparr> strdup_ok = True, diskutil_list = Some cyclic_listing,
       mntinfo = None, diskutil_info = (\<lambda>device. None) \<rparr>"

definition cyclic_disk0 :: node where
  "cyclic_disk0 =
     \<lparr> name = ''disk0'', size_bytes = 0, type_n = ''part'', mountpoint = [],
       fstype = [], label = [], uuid = [], parent = Some 0, children = [0] \<rparr>"

text \<open>
  A bulk listing with 65 top-level entries, \<open>disk0\<close> to \<open>disk64\<close>; the first of them lists
  \<open>disk64\<close> as its partition.
\<close>

definition plain_disk :: "nat \<Rightarrow> cfval" where
  "plain_disk i = CFDictionary [(''DeviceIdentifier'', CFString (''disk'' @ dec_nat i))]"

definition crowded_entries :: "cfval list" where
  "crowded_entries =
     CFDictionary [(''DeviceIdentifier'', CFString ''disk0''),
                   (''Partitions'', CFArray [plain_disk 64])]
     # map plain_disk [1..<65]"

definition crowded_listing :: cfval where
  "crowded_listing = CFDictionary [(''AllDisksAndPartitions'', CFArray crowded_entries)]"

text \<open>
  A bulk listing in the natural order of its identifiers: the disk \<open>disk12\<close> with the
  partitions \<open>disk12s12\<close> and \<open>disk12s100\<close>, and after it the disk \<open>disk100\<close>. No mount
  table. \<open>numbered_flat\<close> is the store that the build leaves for it.
\<close>

definition numbered_entries :: "cfval list" where
  "numbered_entries =
     [CFDictionary [(''DeviceIdentifier'', CFString ''disk12''),
                    (''Content'', CFString ''GUID_partition_scheme''),
                    (''Partitions'', CFArray
                       [CFDictionary [(''DeviceIdentifier'', CFString ''disk12s12'')],
                        CFDictionary [(''DeviceIdentifier'', CFString ''disk12s100'')]])],
      CFDictionary [(''DeviceIdentifier'', CFString ''disk100''),
                    (''Content'', CFString ''GUID_partition_scheme'')]]"

definition numbered_listing :: cfval where
  "numbered_listing = CFDictionary [(''AllDisksAndPartitions'', CFArray numbered_entries)]"

definition numbered_env :: env where
  "numbered_env =
     \<lparr> strdup_ok = True, diskutil_list = Some numbered_listing,
       mntinfo = None, diskutil_info = (\<lambda>device. None) \<rparr>"

definition numbered_flat :: "node list" where
  "numbered_flat =
     [\<lparr> name = ''disk12'', size_bytes = 0, type_n = ''disk'', mountpoint = [], fstype = [],
         label = [], uuid = [], parent = None, children = [2, 1] \<rparr>,
      \<lparr> name = ''disk12s12'', size_bytes = 0, type_n = ''part'', mountpoint = [], fstype = [],
         label = [], uuid = [], parent = Some 0, children = [] \<rparr>,
      \<lparr> name = ''disk12s100'', size_bytes = 0, type_n = ''part'', mountpoint = [], fstype = [],
         label = [], uuid = [], parent = Some 0, children = [] \<rparr>,
      \<lparr> name = ''disk100'', size_bytes = 0, type_n = ''disk'', mountpoint = [], fstype = [],
         label = [], uuid = [], parent = None, children = [] \<rparr>]"

text \<open>
  The scenario with \<open>-f\<close>: the mount table has \<open>/dev/disk0s1\<close> on \<open>/Volumes/Old\<close> and
  \<open>/dev/disk0\<close> on \<open>/Volumes/Whole\<close>; the lookup of \<open>disk0s1\<close> reports the mount point
  \<open>/Volumes/New\<close>, that of \<open>disk0\<close> an empty one.
\<close>

definition enriched_info :: "string \<Rightarrow> cfval option" where
  "enriched_info device =
     (if device = ''disk0s1'' then Some (CFDictionary [(''MountPoint'', CFString ''/Volumes/New'')])
      else if device = ''disk0'' then Some (CFDictionary [(''MountPoint'', CFString [])])
      else None)"

definition enriched_env :: env where
  "enriched_env =
     \<lparr> strdup_ok = True, diskutil_list = Some scenario_listing,
       mntinfo = Some [(''/dev/disk0s1'', ''/Volumes/Old''), (''/dev/disk0'', ''/Volumes/Whole'')],
       diskutil_info = enriched_info \<rparr>"

section \<open>The nodes that a walk of the forest reaches\<close>

text \<open>
  \<open>forest_nodes flat S\<close> are the nodes of the forest below the nodes \<open>S\<close>: the nodes that
  the child pointers lead to. \<open>walked flat ident S\<close> are those that
  \<open>set_mountpoint_recursive\<close> visits when it is called on the nodes \<open>S\<close> with the
  identifier \<open>ident\<close>: it does not go below a node that carries the identifier.
  \<open>depth_le k flat n\<close> says that the forest below \<open>n\<close> has fewer than \<open>k\<close> levels under \<open>n\<close>,
  so that a recursion from \<open>n\<close> stays within the depth \<open>k\<close>.
\<close>

inductive_set forest_nodes :: "node list \<Rightarrow> nat set \<Rightarrow> nat set" for flat :: "node list" and S :: "nat set" where
  root: "r \<in> S \<Longrightarrow> r \<in> forest_nodes flat S"
| child: "p \<in> forest_nodes flat S \<Longrightarrow> c \<in> set (children (flat ! p)) \<Longrightarrow> c \<in> forest_nodes flat S"

inductive_set walked :: "node list \<Rightarrow> string \<Rightarrow> nat set \<Rightarrow> nat set"
  for flat :: "node list" and ident :: string and S :: "nat set" where
  start: "r \<in> S \<Longrightarrow> r \<in> walked flat ident S"
| down: "p \<in> walked flat ident S \<Longrightarrow> name (flat ! p) \<noteq> ident \<Longrightarrow> c \<in> set (children (flat ! p))
         \<Longrightarrow> c \<in> walked flat ident S"

primrec depth_le :: "nat \<Rightarrow> node list \<Rightarrow> nat \<Rightarrow> bool" where
  "depth_le 0 flat n = False"
| "depth_le (Suc k) flat n = (\<forall>c \<in> set (children (flat ! n)). depth_le k flat c)"

text \<open>
  A store made by hand in which two nodes carry the same identifier: the root \<open>disk0\<close>
  with the children 1 and 2, both named \<open>disk0s1\<close>, with given mount points.
\<close>

definition twin_flat :: "string \<Rightarrow> string \<Rightarrow> node list" where
  "twin_flat mp1 mp2 =
     [\<lparr> name = ''disk0'', size_bytes = 0, type_n = ''disk'', mountpoint = [], fstype = [],
         label = [], uuid = [], parent = None, children = [1, 2] \<rparr>,
      \<lparr> name = ''disk0s1'', size_bytes = 0, type_n = ''part'', mountpoint = mp1, fstype = [],
         label = [], uuid = [], parent = Some 0, children = [] \<rparr>,
      \<lparr> name = ''disk0s1'', size_bytes = 0, type_n = ''part'', mountpoint = mp2, fstype = [],
         label = [], uuid = [], parent = Some 0, children = [] \<rparr>]"

section \<open>Substrings\<close>

lemma take_length_eq_iff: "take (length n) s = n \<longleftrightarrow> (\<exists>q. s = n @ q)"
proof
  assume "take (length n) s = n"
  then have "s = n @ drop (length n) s" by (metis append_take_drop_id)
  then show "\<exists>q. s = n @ q" ..
next
  assume "\<exists>q. s = n @ q"
  then show "take (length n) s = n" by auto
qed

lemma strstr_iff: "strstr s n \<longleftrightarrow> (\<exists>p q. s = p @ n @ q)"
proof (induction s)
  case Nil
  show ?case by auto
next
  case (Cons h hs)
  have "(\<exists>p q. h # hs = p @ n @ q) \<longleftrightarrow> (\<exists>q. h # hs = n @ q) \<or> (\<exists>p q. hs = p @ n @ q)"
  proof
    assume "\<exists>p q. h # hs = p @ n @ q"
    then obtain p q where pq: "h # hs = p @ n @ q" by blast
    show "(\<exists>q. h # hs = n @ q) \<or> (\<exists>p q. hs = p @ n @ q)"
    proof (cases p)
      case Nil
      with pq show ?thesis by auto
    next
      case (Cons a p')
      with pq have "hs = p' @ n @ q" by simp
      then show ?thesis by blast
    qed
  next
    assume "(\<exists>q. h # hs = n @ q) \<or> (\<exists>p q. hs = p @ n @ q)"
    then show "\<exists>p q. h # hs = p @ n @ q"
    proof
      assume "\<exists>q. h # hs = n @ q"
      then obtain q where "h # hs = [] @ n @ q" by auto
      then show ?thesis by blast
    next
      assume "\<exists>p q. hs = p @ n @ q"
      then obtain p q where "h # hs = (h # p) @ n @ q" by auto
      then show ?thesis by blast
    qed
  qed
  with Cons show ?case by (simp add: take_length_eq_iff del: take_Cons')
qed

lemma strstr_trans: "strstr s m \<Longrightarrow> strstr m n \<Longrightarrow> strstr s n"
proof -
  assume "strstr s m" "strstr m n"
  then obtain p q p' q' where "s = p @ m @ q" "m = p' @ n @ q'" by (auto simp: strstr_iff)
  then have "s = (p @ p') @ n @ (q' @ q)" by simp
  then show ?thesis unfolding strstr_iff by blast
qed

lemma container_has_APFS: "strstr ''Apple_APFS_Container'' ''APFS''"
  by simp

lemmas str_eval = strstr.simps content_to_fstype_def snprintf_def starts_with_def

section \<open>The filesystem hint\<close>

text \<open>
  Claim C2, amended. \<open>content_to_fstype\<close> checks the filesystem signatures first and the
  partition-scheme marker after them: a content string that contains \<open>APFS\<close> or
  \<open>41504653\<close> gives \<open>apfs\<close>, so the APFS-container marker \<open>Apple_APFS_Container\<close> gives
  \<open>apfs\<close>; otherwise one that contains \<open>HFS\<close> or \<open>Apple_HFS\<close> gives \<open>hfs\<close>; otherwise one
  that contains \<open>EFI\<close> or \<open>C12A7328\<close> gives \<open>vfat\<close>; only a content string with none of these
  signatures that contains \<open>GUID_partition_scheme\<close> gives the empty string, so a string with
  both a signature and the scheme marker gets the filesystem name. A missing content gives
  the empty string, and every other content string is passed through, cut to 31 bytes.
\<close>

theorem content_to_fstype_rule_order:
  "(strstr c ''APFS'' \<or> strstr c ''41504653'' \<longrightarrow> content_to_fstype (Some c) 64 = ''apfs'')
   \<and> (strstr c ''Apple_APFS_Container'' \<longrightarrow> content_to_fstype (Some c) 64 = ''apfs'')
   \<and> (\<not> strstr c ''APFS'' \<and> \<not> strstr c ''41504653''
        \<and> (strstr c ''HFS'' \<or> strstr c ''Apple_HFS'') \<longrightarrow> content_to_fstype (Some c) 64 = ''hfs'')
   \<and> (\<not> strstr c ''APFS'' \<and> \<not> strstr c ''41504653'' \<and> \<not> strstr c ''HFS'' \<and> \<not> strstr c ''Apple_HFS''
        \<and> (strstr c ''EFI'' \<or> strstr c ''C12A7328'') \<longrightarrow> content_to_fstype (Some c) 64 = ''vfat'')
   \<and> (\<not> strstr c ''APFS'' \<and> \<not> strstr c ''41504653'' \<and> \<not> strstr c ''HFS'' \<and> \<not> strstr c ''Apple_HFS''
        \<and> \<not> strstr c ''EFI'' \<and> \<not> strstr c ''C12A7328''
        \<longrightarrow> content_to_fstype (Some c) 64
             = (if strstr c ''GUID_partition_scheme'' then [] else take 31 c))
   \<and> content_to_fstype None 64 = []"
proof -
  have cont: "strstr c ''APFS''" if "strstr c ''Apple_APFS_Container''"
    using that container_has_APFS by (rule strstr_trans)
  have len: "take 63 (take 31 c) = take 31 c" by simp
  show ?thesis
    using cont by (auto simp: content_to_fstype_def snprintf_def len)
qed

text \<open>
  The theorem at the container marker, at a string with a signature and the scheme marker,
  at the scheme marker alone and at a content string that no rule knows.
\<close>

theorem content_to_fstype_rule_order_witness:
  "strstr ''Apple_APFS_Container'' ''Apple_APFS_Container''
   \<and> content_to_fstype (Some ''Apple_APFS_Container'') 64 = ''apfs''
   \<and> strstr ''GUID_partition_scheme EFI'' ''EFI''
   \<and> content_to_fstype (Some ''GUID_partition_scheme EFI'') 64 = ''vfat''
   \<and> content_to_fstype (Some ''GUID_partition_scheme'') 64 = []
   \<and> content_to_fstype (Some ''Microsoft Basic Data'') 64 = ''Microsoft Basic Data''"
proof -
  have a: "strstr ''Apple_APFS_Container'' ''Apple_APFS_Container''" by simp
  have b: "strstr ''GUID_partition_scheme EFI'' ''EFI''" by simp
  have nb: "\<not> strstr ''GUID_partition_scheme EFI'' ''APFS''"
    "\<not> strstr ''GUID_partition_scheme EFI'' ''41504653''"
    "\<not> strstr ''GUID_partition_scheme EFI'' ''HFS''"
    "\<not> strstr ''GUID_partition_scheme EFI'' ''Apple_HFS''" by simp_all
  have nc: "\<not> strstr ''GUID_partition_scheme'' ''APFS''"
    "\<not> strstr ''GUID_partition_scheme'' ''41504653''"
    "\<not> strstr ''GUID_partition_scheme'' ''HFS''"
    "\<not> strstr ''GUID_partition_scheme'' ''Apple_HFS''"
    "\<not> strstr ''GUID_partition_scheme'' ''EFI''"
    "\<not> strstr ''GUID_partition_scheme'' ''C12A7328''"
    "strstr ''GUID_partition_scheme'' ''GUID_partition_scheme''" by simp_all
  have nd: "\<not> strstr ''Microsoft Basic Data'' ''APFS''"
    "\<not> strstr ''Microsoft Basic Data'' ''41504653''"
    "\<not> strstr ''Microsoft Basic Data'' ''HFS''"
    "\<not> strstr ''Microsoft Basic Data'' ''Apple_HFS''"
    "\<not> strstr ''Microsoft Basic Data'' ''EFI''"
    "\<not> strstr ''Microsoft Basic Data'' ''C12A7328''"
    "\<not> strstr ''Microsoft Basic Data'' ''GUID_partition_scheme''" by simp_all
  show ?thesis
    using a b nb nc nd
      content_to_fstype_rule_order [of "''Apple_APFS_Container''"]
      content_to_fstype_rule_order [of "''GUID_partition_scheme EFI''"]
      content_to_fstype_rule_order [of "''GUID_partition_scheme''"]
      content_to_fstype_rule_order [of "''Microsoft Basic Data''"]
    by simp
qed

text \<open>
  Claim C2 as stated says that the container markers give the empty string and are checked
  before the filesystem signatures. The APFS-container marker gives \<open>apfs\<close>, and a string
  with the scheme marker and a signature gives the name of the signature.
\<close>

theorem content_to_fstype_container_counterexample:
  "content_to_fstype (Some ''Apple_APFS_Container'') 64 \<noteq> []
   \<and> content_to_fstype (Some ''GUID_partition_scheme EFI'') 64 \<noteq> []"
  by (simp add: str_eval)

section \<open>The comparator\<close>

lemma skip_disk_disk: "skip_disk (''disk'' @ s) = s"
  by (simp add: skip_disk_def starts_with_def)

lemma name_cmp_loop_common: "name_cmp_loop (p @ x) (p @ y) = name_cmp_loop x y"
proof (induction p)
  case Nil
  show ?case by simp
next
  case (Cons c p)
  have "name_cmp_loop ((c # p) @ x) ((c # p) @ y) = name_cmp_loop (p @ x) (p @ y)"
    by (subst name_cmp_loop.simps) simp
  with Cons show ?case by simp
qed

lemma isdigit_not_s: "isdigit c \<Longrightarrow> c \<noteq> CHR ''s''"
  by (auto simp: isdigit_def)

lemma name_cmp_loop_digits:
  assumes "x \<noteq> []" "y \<noteq> []" "hd x \<noteq> hd y" "isdigit (hd x)" "isdigit (hd y)"
    and "strtoul x \<noteq> strtoul y"
  shows "name_cmp_loop x y = (if strtoul x < strtoul y then - 1 else 1)"
  using assms isdigit_not_s [of "hd x"] isdigit_not_s [of "hd y"]
  by (subst name_cmp_loop.simps) (auto simp: Let_def)

lemmas cmp_eval = name_cmp_loop.simps skip_disk_def starts_with_def strtoul_def strtoul_end_def
  isdigit_def digit_val_def ULONG_MAX_def cur_def

text \<open>
  The comparison starts at the first byte where the two identifiers differ, so two digit
  runs that begin with the same digits are compared from there on: \<open>disk12\<close> comes after
  \<open>disk100\<close>, since \<open>2\<close> is more than \<open>00\<close>.
\<close>

lemma name_cmp_shared_leading_digit: "name_cmp (Some ''disk12'') (Some ''disk100'') = 1"
  by (simp add: cmp_eval)

text \<open>
  Where two identifiers first differ and both have a digit there, the order is that of
  the numbers which the digit runs starting at this position denote. These are the whole
  runs only if the runs do not begin with the same digits.
\<close>

lemma name_cmp_first_difference:
  assumes "x \<noteq> []" "y \<noteq> []" "hd x \<noteq> hd y" "isdigit (hd x)" "isdigit (hd y)"
    and "strtoul x \<noteq> strtoul y"
  shows "name_cmp (Some (''disk'' @ p @ x)) (Some (''disk'' @ p @ y))
         = (if strtoul x < strtoul y then - 1 else 1)"
proof -
  have "name_cmp (Some (''disk'' @ p @ x)) (Some (''disk'' @ p @ y)) = name_cmp_loop x y"
    by (simp only: name_cmp.simps skip_disk_disk name_cmp_loop_common)
  also have "\<dots> = (if strtoul x < strtoul y then - 1 else 1)"
    using assms by (rule name_cmp_loop_digits)
  finally show ?thesis .
qed

text \<open>The examples of the specification: none of them has two runs with a common digit in front.\<close>

lemma name_cmp_examples:
  "name_cmp (Some ''disk2'') (Some ''disk10'') < 0"
  "name_cmp (Some ''disk10'') (Some ''disk2'') > 0"
  "name_cmp (Some ''disk2s1'') (Some ''disk2s9'') < 0"
  "name_cmp (Some ''disk2s9'') (Some ''disk2s1'') > 0"
  "name_cmp (Some ''disk2s9'') (Some ''disk2s10'') < 0"
  "name_cmp (Some ''disk2s10'') (Some ''disk2s9'') > 0"
  "name_cmp (Some ''disk2s1'') (Some ''disk2s10'') < 0"
  "name_cmp (Some ''disk2s10'') (Some ''disk2s1'') > 0"
  by (simp_all add: cmp_eval)

text \<open>
  \<open>disk11\<close> and \<open>disk101\<close> compare equal: after the common \<open>1\<close> the runs \<open>1\<close> and \<open>01\<close>
  denote the same number, and both identifiers end there.
\<close>

lemma name_cmp_tie: "name_cmp (Some ''disk11'') (Some ''disk101'') = 0"
  by (simp add: cmp_eval)

section \<open>Enrichment\<close>

lemma foldl_update_prefix:
  "k \<le> length xs \<Longrightarrow>
   foldl (\<lambda>fl i. fl[i := f (fl ! i)]) xs [0..<k] = map f (take k xs) @ drop k xs"
proof (induction k)
  case 0
  show ?case by simp
next
  case (Suc k)
  then have k: "k < length xs" by simp
  have "foldl (\<lambda>fl i. fl[i := f (fl ! i)]) xs [0..<Suc k]
        = (map f (take k xs) @ drop k xs)[k := f ((map f (take k xs) @ drop k xs) ! k)]"
    using Suc by simp
  also have "(map f (take k xs) @ drop k xs) ! k = xs ! k"
    using k by (simp add: nth_append)
  also have "(map f (take k xs) @ drop k xs)[k := f (xs ! k)]
             = map f (take k xs) @ (drop k xs)[0 := f (xs ! k)]"
    using k by (simp add: list_update_append)
  also have "(drop k xs)[0 := f (xs ! k)] = f (xs ! k) # drop (Suc k) xs"
    using k by (simp add: Cons_nth_drop_Suc [symmetric])
  also have "map f (take k xs) @ f (xs ! k) # drop (Suc k) xs
             = map f (take (Suc k) xs) @ drop (Suc k) xs"
    using k by (simp add: take_Suc_conv_app_nth)
  finally show ?case .
qed

lemma fill_info_all_map: "fill_info_all info flat = map (fill_info info) flat"
  unfolding fill_info_all_def using foldl_update_prefix [of "length flat" flat "fill_info info"]
  by simp

lemma fill_info_mountpoint:
  "mountpoint (fill_info info n) =
     (case get_info_plist info (name n) of
        None \<Rightarrow> mountpoint n
      | Some d \<Rightarrow>
          (case cfstr (CFDictionaryGetValue d ''MountPoint'') of
             Some s \<Rightarrow> if s \<noteq> [] then s else mountpoint n
           | None \<Rightarrow> mountpoint n))"
proof (cases "get_info_plist info (name n)")
  case None
  then show ?thesis by (simp add: fill_info_def)
next
  case (Some d)
  have keep: "mountpoint (case x of None \<Rightarrow> a | Some v \<Rightarrow> f v) = mountpoint a"
    if "\<And>v. mountpoint (f v) = mountpoint a" for x :: "'b option" and a :: node and f
    using that by (cases x) auto
  show ?thesis
    unfolding fill_info_def Some option.case Let_def
    by (cases "cfstr (CFDictionaryGetValue d ''MountPoint'')";
        cases "CFDictionaryGetValue d ''MountPoint''")
       (simp_all add: keep split: option.split)
qed

lemma fill_info_failed: "get_info_plist info (name n) = None \<Longrightarrow> fill_info info n = n"
  by (simp add: fill_info_def)

section \<open>Column parsing\<close>

lemma all_cols_complete: "c \<in> set all_cols"
  by (cases c) (simp_all add: all_cols_def)

lemma find_col_None_iff: "find_col t = None \<longleftrightarrow> (\<forall>c. \<not> strcasecmp_eq t (col_names c))"
  unfolding find_col_def find_None_iff using all_cols_complete by blast

lemma find_col_Some: "find_col t = Some c \<Longrightarrow> strcasecmp_eq t (col_names c)"
  unfolding find_col_def by (auto simp: find_Some_iff)

lemma parse_tokens_eq:
  "length cols \<le> 32 \<Longrightarrow>
   parse_tokens toks cols =
     (if length (cols @ List.map_filter (\<lambda>tok. find_col (dropWhile (\<lambda>c. c = CHR '' '') tok)) toks) \<le> 32
      then (0, cols @ List.map_filter (\<lambda>tok. find_col (dropWhile (\<lambda>c. c = CHR '' '') tok)) toks)
      else (- 1, take 32 (cols @ List.map_filter (\<lambda>tok. find_col (dropWhile (\<lambda>c. c = CHR '' '') tok)) toks)))"
proof (induction toks arbitrary: cols)
  case Nil
  then show ?case by simp
next
  case (Cons tok toks)
  show ?case
  proof (cases "find_col (dropWhile (\<lambda>c. c = CHR '' '') tok)")
    case None
    with Cons show ?thesis by simp
  next
    case (Some c)
    show ?thesis
    proof (cases "length cols \<ge> 32")
      case True
      with Cons.prems have "length cols = 32" by simp
      with Some show ?thesis by simp
    next
      case False
      then have "length (cols @ [c]) \<le> 32" by simp
      from Cons.IH [OF this] Some False show ?thesis by simp
    qed
  qed
qed

lemma map_filter_all_None: "(\<forall>x \<in> set xs. f x = None) \<Longrightarrow> List.map_filter f xs = []"
  by (induction xs) simp_all

lemmas cols_eval = parse_columns_def parse_output_option_def strtok_all.simps find_col_def
  all_cols_def strcasecmp_eq_def tolower_def Let_def DEFAULT_COLS_def

lemma default_cols_value:
  "parse_output_option True None = (0, [COL_NAME, COL_SIZE, COL_TYPE, COL_MOUNTPOINT])"
  by (simp add: cols_eval)

section \<open>The scenario of the specification, step by step\<close>

lemma insert_by_mset: "mset (insert_by c x ys) = add_mset x (mset ys)"
  by (induction ys) simp_all

lemma insertion_qsort_permutes: "qsort_permutes insertion_qsort"
  unfolding qsort_permutes_def insertion_qsort_def
proof (intro allI)
  fix c xs
  show "mset (foldr (insert_by c) xs []) = mset xs"
    by (induction xs) (simp_all add: insert_by_mset)
qed

lemma qsort_permutes_mset: "qsort_permutes qs \<Longrightarrow> mset (qs c xs) = mset xs"
  by (simp add: qsort_permutes_def)

lemma qsort_permutes_set: "qsort_permutes qs \<Longrightarrow> set (qs c xs) = set xs"
  by (metis qsort_permutes_mset set_mset_mset)

lemma qsort_permutes_length: "qsort_permutes qs \<Longrightarrow> length (qs c xs) = length xs"
  by (metis qsort_permutes_mset size_mset)

lemma qsort_permutes_single: "qsort_permutes qs \<Longrightarrow> qs c [x] = [x]"
  using qsort_permutes_mset [of qs c "[x]"] by simp

lemma qsort_permutes_replicate: "qsort_permutes qs \<Longrightarrow> qs c (replicate n x) = replicate n x"
proof -
  assume p: "qsort_permutes qs"
  have "set (qs c (replicate n x)) \<subseteq> {x}" using qsort_permutes_set [OF p, of c "replicate n x"] by auto
  moreover have "length (qs c (replicate n x)) = n" using qsort_permutes_length [OF p, of c "replicate n x"] by simp
  ultimately show ?thesis by (metis replicate_eqI subset_singletonD singletonD subsetD)
qed

lemma scenario_collect:
  "collect_nodes [scenario_disk] None ([], []) = ([0], [scenario_disk0, scenario_disk0s1 []])"
  by (simp add: collect_nodes_def collect_entry_def scenario_disk_def scenario_part_def
      ensure_node_def node_create_def add_partition_def node_add_child_def array_at_def
      str_eval scenario_disk0_def scenario_disk0s1_def Let_def)

lemma scenario_build:
  "qsort_permutes qs \<Longrightarrow>
   build_tree (Suc k) qs scenario_listing = Some (Built [0] [scenario_disk0, scenario_disk0s1 []])"
  by (simp add: build_tree_def scenario_listing_def scenario_collect qsort_permutes_single
      scenario_disk0_def)

lemma scenario_mounts:
  "fill_mountpoints (Suc (Suc k)) (Some [(''/dev/disk0s1'', ''/'')]) [0]
     [scenario_disk0, scenario_disk0s1 []] = Some [scenario_disk0, scenario_disk0s1 ''/'']"
  by (simp add: fill_mountpoints_def mount_entry_def starts_with_def scenario_disk0_def
      scenario_disk0s1_def)

lemma floor_numeral_div: "\<lfloor>numeral a / numeral b :: rat\<rfloor> = numeral a div numeral b"
  by (metis floor_divide_of_int_eq of_int_numeral)

lemma fmt_size_disk0: "fmt_size 121332826112 32 = ''113.0G''"
proof -
  have 1: "u64_to_double 121332826112 = 121332826112" by (simp add: u64_to_double_def)
  have 2: "fmt_scale 121332826112 0 = (113, 3)" by (simp add: fmt_scale.simps)
  have 3: "fmt_1f 113 = ''113.0''" by (simp add: fmt_1f_def round_half_even_def Let_def dec_nat.simps)
  show ?thesis by (simp add: fmt_size_def 1 2 3 units_def snprintf_def)
qed

lemma fmt_size_disk0s1: "fmt_size 121213132800 32 = ''112.9G''"
proof -
  have 1: "u64_to_double 121213132800 = 121213132800" by (simp add: u64_to_double_def)
  have 2: "fmt_scale 121213132800 0 = (14796525 / 131072, 3)" by (simp add: fmt_scale.simps)
  have 3: "fmt_1f (14796525 / 131072) = ''112.9''"
    by (simp add: fmt_1f_def round_half_even_def Let_def dec_nat.simps floor_numeral_div)
  show ?thesis by (simp add: fmt_size_def 1 2 3 units_def snprintf_def)
qed

lemma scenario_forest:
  "print_forest (Suc (Suc k)) [scenario_disk0, scenario_disk0s1 ''/''] [0]
     [COL_NAME, COL_SIZE, COL_TYPE, COL_MOUNTPOINT]
   = Some (''NAME SIZE TYPE MOUNTPOINT'' @ nl @ ''disk0 113.0G disk '' @ nl
           @ ''  '' @ box_last @ box_horiz @ box_horiz @ '' disk0s1 112.9G part /'' @ nl)"
  by (simp add: print_forest_def header_def join_sp_def tree_cells_def snprintf_def
      scenario_disk0_def scenario_disk0s1_def fmt_size_disk0 fmt_size_disk0s1 Let_def)

lemma scenario_forest_no_columns:
  "print_forest (Suc (Suc k)) [scenario_disk0, scenario_disk0s1 ''/''] [0] []
   = Some (nl @ ''disk0'' @ nl @ ''  '' @ box_last @ box_horiz @ box_horiz @ '' disk0s1'' @ nl)"
  by (simp add: print_forest_def header_def join_sp_def tree_cells_def snprintf_def
      scenario_disk0_def scenario_disk0s1_def Let_def)

lemma scenario_list_plist: "get_list_plist (diskutil_list scenario_env) = Some scenario_listing"
  by (simp add: get_list_plist_def scenario_env_def scenario_listing_def)

lemma scenario_free:
  "free_roots (Suc (Suc k)) [scenario_disk0, scenario_disk0s1 mp] [0] = Some (Inr [1, 0])"
  by (simp add: free_roots_def scenario_disk0_def scenario_disk0s1_def)

lemma scenario_main_run:
  "qsort_permutes qs \<Longrightarrow>
   main_run (Suc (Suc k)) qs default_opts scenario_env cols
   = (case print_forest (Suc (Suc k)) [scenario_disk0, scenario_disk0s1 ''/''] [0] cols of
        None \<Rightarrow> None | Some out \<Rightarrow> Some (Inr (0, out, [])))"
  by (simp add: main_run_def scenario_list_plist scenario_build)
     (simp add: scenario_env_def scenario_mounts default_opts_def render_def scenario_free
        Let_def split: option.split)

lemma scenario_main_value:
  "qsort_permutes qs \<Longrightarrow>
   main (Suc (Suc k)) qs default_opts scenario_env
   = Some (Inr (0, ''NAME SIZE TYPE MOUNTPOINT'' @ nl @ ''disk0 113.0G disk '' @ nl
              @ ''  '' @ box_last @ box_horiz @ box_horiz @ '' disk0s1 112.9G part /'' @ nl, []))"
proof -
  assume p: "qsort_permutes qs"
  have "parse_output_option (strdup_ok scenario_env) (opt_o default_opts)
        = (0, [COL_NAME, COL_SIZE, COL_TYPE, COL_MOUNTPOINT])"
    by (simp add: scenario_env_def default_opts_def default_cols_value)
  moreover have "opt_f default_opts = False"
    by (simp add: default_opts_def)
  ultimately show ?thesis
    by (simp add: main_def scenario_main_run [OF p] scenario_forest)
qed

lemma main_run_opts:
  assumes "opt_f a = opt_f b" "opt_J a = opt_J b" "opt_list a = opt_list b"
  shows "main_run fuel qs a e cols = main_run fuel qs b e cols"
proof -
  have r: "render fuel a = render fuel b"
    by (intro ext) (simp add: render_def assms)
  show ?thesis unfolding main_run_def r assms(1) ..
qed

section \<open>The names in the flat index\<close>

lemma find_name_None_iff: "find_name flat nm = None \<longleftrightarrow> nm \<notin> set (map name flat)"
  by (induction flat) auto

lemma find_name_Some:
  "find_name flat nm = Some i \<Longrightarrow> i < length flat \<and> name (flat ! i) = nm"
  by (induction flat arbitrary: i) (auto split: if_splits)

lemma find_name_cong: "map name a = map name b \<Longrightarrow> find_name a nm = find_name b nm"
proof (induction a arbitrary: b)
  case Nil
  then show ?case by simp
next
  case (Cons x a)
  then obtain y b' where b: "b = y # b'" by (cases b) auto
  with Cons.prems have "name x = name y" "map name a = map name b'" by auto
  with Cons.IH [of b'] b show ?case by simp
qed

lemma find_name_append:
  "nm \<in> set (map name a) \<Longrightarrow> find_name (a @ b) nm = find_name a nm"
  by (induction a) auto

lemma find_name_append_new:
  "nm \<notin> set (map name a) \<Longrightarrow> find_name (a @ [n]) nm = (if name n = nm then Some (length a) else None)"
  by (induction a) auto

lemma find_name_distinct:
  "distinct (map name flat) \<Longrightarrow> i < length flat \<Longrightarrow> find_name flat (name (flat ! i)) = Some i"
proof (induction flat arbitrary: i)
  case Nil
  then show ?case by simp
next
  case (Cons x flat)
  show ?case
  proof (cases i)
    case 0
    then show ?thesis by simp
  next
    case (Suc j)
    with Cons.prems have j: "j < length flat" and d: "distinct (map name flat)"
      and nx: "name x \<notin> set (map name flat)" by auto
    from j have "name (flat ! j) \<in> set (map name flat)" by simp
    with nx have "name x \<noteq> name (flat ! j)" by auto
    with Cons.IH [OF d j] Suc show ?thesis by simp
  qed
qed

lemma set_add_name: "set (add_name ns x) = insert x (set ns)"
  by (auto simp: add_name_def)


lemma set_foldl_add_name: "set (foldl add_name ns xs) = set ns \<union> set xs"
  by (induction xs arbitrary: ns) (auto simp: set_add_name)


lemma foldl_add_name_prefix: "\<exists>suf. foldl add_name ns xs = ns @ suf"
proof (induction xs arbitrary: ns)
  case Nil
  show ?case by simp
next
  case (Cons x xs)
  have "add_name ns x = ns @ (if x \<in> set ns then [] else [x])" by (simp add: add_name_def)
  then obtain s1 where "add_name ns x = ns @ s1" ..
  moreover obtain s2 where "foldl add_name (add_name ns x) xs = add_name ns x @ s2"
    using Cons [of "add_name ns x"] by blast
  ultimately show ?case by simp
qed

lemma upd_names:
  "name n' = name (flat ! i) \<Longrightarrow> map name (flat[i := n']) = map name flat"
proof (cases "i < length flat")
  case True
  assume "name n' = name (flat ! i)"
  with True show ?thesis by (simp add: map_update list_update_same_conv)
next
  case False
  then have "flat[i := n'] = flat" by (simp add: list_update_beyond)
  then show ?thesis by simp
qed

lemma ensure_node_names:
  "map name (snd (ensure_node flat nm sz ty)) = add_name (map name flat) nm"
proof (cases "find_name flat nm")
  case None
  then have "nm \<notin> set (map name flat)" by (simp add: find_name_None_iff)
  with None show ?thesis by (simp add: ensure_node_def add_name_def node_create_def)
next
  case (Some i)
  from find_name_Some [OF Some] have "nm \<in> set (map name flat)" by auto
  with Some show ?thesis by (simp add: ensure_node_def add_name_def)
qed

lemma ensure_node_result:
  "ensure_node flat nm sz ty = (i, flat') \<Longrightarrow>
   i < length flat' \<and> name (flat' ! i) = nm \<and> find_name flat' nm = Some i"
proof (cases "find_name flat nm")
  case None
  assume "ensure_node flat nm sz ty = (i, flat')"
  with None have "i = length flat" "flat' = flat @ [node_create nm sz ty]"
    by (auto simp: ensure_node_def)
  moreover from None have "nm \<notin> set (map name flat)" by (simp add: find_name_None_iff)
  ultimately show ?thesis by (simp add: find_name_append_new node_create_def)
next
  case (Some j)
  assume "ensure_node flat nm sz ty = (i, flat')"
  with Some have "i = j" "flat' = flat" by (auto simp: ensure_node_def)
  with Some find_name_Some [OF Some] show ?thesis by simp
qed


lemma ensure_node_absent:
  "nm \<notin> set (map name flat) \<Longrightarrow>
   ensure_node flat nm sz ty = (length flat, flat @ [node_create nm sz ty])"
proof -
  assume "nm \<notin> set (map name flat)"
  then have "find_name flat nm = None" by (simp add: find_name_None_iff)
  then show ?thesis by (simp add: ensure_node_def)
qed

lemma node_add_child_names: "map name (node_add_child flat p c) = map name flat"
  by (simp add: node_add_child_def Let_def upd_names)

lemma add_partition_names:
  "map name (add_partition flat dn part) =
     (case entry_id part of None \<Rightarrow> map name flat | Some x \<Rightarrow> add_name (map name flat) x)"
proof (cases "entry_id part")
  case None
  then show ?thesis by (simp add: add_partition_def entry_id_def)
next
  case (Some x)
  obtain i flat1 where e: "ensure_node flat x (cfint (CFDictionaryGetValue part ''Size'')) (Some ''part'') = (i, flat1)"
    by (cases "ensure_node flat x (cfint (CFDictionaryGetValue part ''Size'')) (Some ''part'')") auto
  from ensure_node_names [of flat x "cfint (CFDictionaryGetValue part ''Size'')" "Some ''part''"] e
  have n1: "map name flat1 = add_name (map name flat) x" by simp
  from Some e n1 show ?thesis
    by (cases dn) (simp_all add: add_partition_def entry_id_def Let_def upd_names node_add_child_names)
qed

lemma add_apfs_volume_names:
  "map name (add_apfs_volume flat dn vol) =
     (case entry_id vol of None \<Rightarrow> map name flat | Some x \<Rightarrow> add_name (map name flat) x)"
proof (cases "entry_id vol")
  case None
  then show ?thesis by (simp add: add_apfs_volume_def entry_id_def)
next
  case (Some x)
  obtain i flat1 where e: "ensure_node flat x (cfint (CFDictionaryGetValue vol ''Size'')) (Some ''part'') = (i, flat1)"
    by (cases "ensure_node flat x (cfint (CFDictionaryGetValue vol ''Size'')) (Some ''part'')") auto
  from ensure_node_names [of flat x "cfint (CFDictionaryGetValue vol ''Size'')" "Some ''part''"] e
  have n1: "map name flat1 = add_name (map name flat) x" by simp
  from Some e n1 show ?thesis
    by (cases dn)
       (simp_all add: add_apfs_volume_def entry_id_def Let_def upd_names node_add_child_names
             split: option.split)
qed

section \<open>The loop of the build\<close>

lemma find_name_stable:
  "map name flat' = map name flat @ suf \<Longrightarrow> nm \<in> set (map name flat) \<Longrightarrow>
   find_name flat' nm = find_name flat nm"
proof -
  assume a: "map name flat' = map name flat @ suf" and b: "nm \<in> set (map name flat)"
  have "find_name flat' nm = find_name (take (length flat) flat' @ drop (length flat) flat') nm"
    by simp
  moreover from a have m: "map name (take (length flat) flat') = map name flat"
    by (metis append_eq_conv_conj length_map take_map)
  moreover from m b have "nm \<in> set (map name (take (length flat) flat'))" by simp
  ultimately have "find_name flat' nm = find_name (take (length flat) flat') nm"
    by (simp only: find_name_append)
  with find_name_cong [OF m] show ?thesis by simp
qed

lemma foldl_add_partition_names:
  "map name (foldl (\<lambda>fl p. add_partition fl dn p) flat parts)
   = foldl add_name (map name flat) (List.map_filter entry_id parts)"
proof (induction parts arbitrary: flat)
  case Nil
  show ?case by simp
next
  case (Cons p parts)
  show ?case
    by (cases "entry_id p") (simp_all add: Cons add_partition_names)
qed

lemma foldl_add_apfs_volume_names:
  "map name (foldl (\<lambda>fl v. add_apfs_volume fl dn v) flat vols)
   = foldl add_name (map name flat) (List.map_filter entry_id vols)"
proof (induction vols arbitrary: flat)
  case Nil
  show ?case by simp
next
  case (Cons p vols)
  show ?case
    by (cases "entry_id p") (simp_all add: Cons add_apfs_volume_names)
qed

lemma collect_entry_skip: "entry_id d = None \<Longrightarrow> collect_entry None d st = st"
  by (cases d; cases st) (simp_all add: collect_entry_def entry_id_def)

text \<open>What one turn of the loop does for an entry with an identifier.\<close>

lemma collect_entry_step:
  assumes "entry_id d = Some x"
  shows "\<exists>i flat1 flat2 sz ty.
      ensure_node flat x sz ty = (i, flat1)
      \<and> (flat2 = flat1 \<or> (\<exists>v. flat2 = flat1[i := (flat1 ! i)\<lparr>fstype := v\<rparr>]))
      \<and> collect_entry None d (roots, flat) =
          (if 64 \<le> length roots then (roots, flat2)
           else (roots @ [i],
                 foldl (\<lambda>fl v. add_apfs_volume fl (Some i) v)
                   (foldl (\<lambda>fl p. add_partition fl (Some i) p) flat2 (array_at d ''Partitions''))
                   (array_at d ''APFSVolumes'')))"
proof -
  from assms obtain kvs where d: "d = CFDictionary kvs" by (cases d) (simp_all add: entry_id_def)
  from assms d have idk: "cfstr (map_of kvs ''DeviceIdentifier'') = Some x"
    by (simp add: entry_id_def)
  let ?c = "case map_of kvs ''Content'' of None \<Rightarrow> None | Some c \<Rightarrow> cfstr (Some c)"
  show ?thesis
  proof (cases ?c)
    case None
    obtain i flat1 where e: "ensure_node flat x (cfint (map_of kvs ''Size'')) (Some ''part'') = (i, flat1)"
      by force
    have "collect_entry None d (roots, flat) =
          (if 64 \<le> length roots then (roots, flat1)
           else (roots @ [i],
                 foldl (\<lambda>fl v. add_apfs_volume fl (Some i) v)
                   (foldl (\<lambda>fl p. add_partition fl (Some i) p) flat1 (array_at d ''Partitions''))
                   (array_at d ''APFSVolumes'')))"
      unfolding d by (simp add: collect_entry_def Let_def idk None e)
    with e show ?thesis by blast
  next
    case (Some s)
    let ?ty = "Some (if strstr s ''GUID_partition_scheme'' \<or> strstr s ''Apple_APFS_Container''
                     then ''disk'' else ''part'')"
    obtain i flat1 where e: "ensure_node flat x (cfint (map_of kvs ''Size'')) ?ty = (i, flat1)"
      by force
    let ?flat2 = "flat1[i := (flat1 ! i)\<lparr>fstype := content_to_fstype (Some s) 64\<rparr>]"
    have "collect_entry None d (roots, flat) =
          (if 64 \<le> length roots then (roots, ?flat2)
           else (roots @ [i],
                 foldl (\<lambda>fl v. add_apfs_volume fl (Some i) v)
                   (foldl (\<lambda>fl p. add_partition fl (Some i) p) ?flat2 (array_at d ''Partitions''))
                   (array_at d ''APFSVolumes'')))"
      unfolding d by (simp add: collect_entry_def Let_def idk Some e)
    with e show ?thesis by blast
  qed
qed

lemma collect_entry_names:
  assumes "entry_id d = Some x"
  shows "map name (snd (collect_entry None d (roots, flat)))
         = foldl add_name (add_name (map name flat) x) (if length roots < 64 then child_ids d else [])"
proof -
  from collect_entry_step [OF assms, of flat roots]
  obtain i flat1 flat2 sz ty where
    e: "ensure_node flat x sz ty = (i, flat1)"
    and f2: "flat2 = flat1 \<or> (\<exists>v. flat2 = flat1[i := (flat1 ! i)\<lparr>fstype := v\<rparr>])"
    and c: "collect_entry None d (roots, flat) =
          (if 64 \<le> length roots then (roots, flat2)
           else (roots @ [i],
                 foldl (\<lambda>fl v. add_apfs_volume fl (Some i) v)
                   (foldl (\<lambda>fl p. add_partition fl (Some i) p) flat2 (array_at d ''Partitions''))
                   (array_at d ''APFSVolumes'')))"
    by blast
  from ensure_node_names [of flat x sz ty] e have n1: "map name flat1 = add_name (map name flat) x"
    by simp
  from f2 have n2: "map name flat2 = map name flat1" by (auto simp: upd_names)
  show ?thesis
    by (simp add: c n1 n2 foldl_add_apfs_volume_names foldl_add_partition_names child_ids_def)
qed

lemma collect_entry_roots:
  assumes "entry_id d = Some x"
  shows "fst (collect_entry None d (roots, flat))
         = (if length roots < 64
            then roots @ [the (find_name (snd (collect_entry None d (roots, flat))) x)]
            else roots)"
proof -
  from collect_entry_step [OF assms, of flat roots]
  obtain i flat1 flat2 sz ty where
    e: "ensure_node flat x sz ty = (i, flat1)"
    and f2: "flat2 = flat1 \<or> (\<exists>v. flat2 = flat1[i := (flat1 ! i)\<lparr>fstype := v\<rparr>])"
    and c: "collect_entry None d (roots, flat) =
          (if 64 \<le> length roots then (roots, flat2)
           else (roots @ [i],
                 foldl (\<lambda>fl v. add_apfs_volume fl (Some i) v)
                   (foldl (\<lambda>fl p. add_partition fl (Some i) p) flat2 (array_at d ''Partitions''))
                   (array_at d ''APFSVolumes'')))"
    by blast
  from ensure_node_names [of flat x sz ty] e have n1: "map name flat1 = add_name (map name flat) x"
    by simp
  then have x1: "x \<in> set (map name flat1)" by (simp add: set_add_name)
  from ensure_node_result [OF e] have i: "find_name flat1 x = Some i" by simp
  from collect_entry_names [OF assms, of roots flat] n1
  obtain suf where "map name (snd (collect_entry None d (roots, flat))) = map name flat1 @ suf"
    using foldl_add_name_prefix [of "map name flat1"] by metis
  from find_name_stable [OF this x1] i
  have fi: "find_name (snd (collect_entry None d (roots, flat))) x = Some i" by simp
  show ?thesis
  proof (cases "length roots < 64")
    case True
    then have "fst (collect_entry None d (roots, flat)) = roots @ [i]" by (simp add: c)
    with True fi show ?thesis by simp
  next
    case False
    then have "fst (collect_entry None d (roots, flat)) = roots" by (simp add: c)
    with False show ?thesis by simp
  qed
qed

lemma collect_nodes_Cons:
  "collect_nodes (d # ds) par st = collect_nodes ds par (collect_entry par d st)"
  by (simp add: collect_nodes_def)

lemma collect_nodes_Nil: "collect_nodes [] par st = st"
  by (simp add: collect_nodes_def)

lemma collect_nodes_names:
  "map name (snd (collect_nodes all None (roots, flat)))
   = foldl add_name (map name flat) (requested (length roots) all)"
proof (induction all arbitrary: roots flat)
  case Nil
  show ?case by (simp add: collect_nodes_Nil)
next
  case (Cons d ds)
  show ?case
  proof (cases "entry_id d")
    case None
    with Cons show ?thesis by (simp add: collect_nodes_Cons collect_entry_skip)
  next
    case (Some x)
    obtain roots1 flat1 where s1: "collect_entry None d (roots, flat) = (roots1, flat1)"
      by force
    from s1 have sf: "fst (collect_entry None d (roots, flat)) = roots1"
      "snd (collect_entry None d (roots, flat)) = flat1" by simp_all
    have n1: "map name flat1 = foldl add_name (add_name (map name flat) x)
                                 (if length roots < 64 then child_ids d else [])"
      using collect_entry_names [OF Some, of roots flat] unfolding sf .
    have "roots1 = (if length roots < 64 then roots @ [the (find_name flat1 x)] else roots)"
      using collect_entry_roots [OF Some, of roots flat] unfolding sf .
    then have l1: "length roots1 = (if length roots < 64 then Suc (length roots) else length roots)"
      by simp
    show ?thesis
      by (simp add: collect_nodes_Cons s1 Cons [of roots1 flat1] n1 l1 Some)
  qed
qed

lemma collect_nodes_prefix:
  "\<exists>suf. map name (snd (collect_nodes all None (roots, flat))) = map name flat @ suf"
  unfolding collect_nodes_names by (rule foldl_add_name_prefix)

lemma top_ids_Cons:
  "top_ids (d # ds) = (case entry_id d of None \<Rightarrow> top_ids ds | Some x \<Rightarrow> x # top_ids ds)"
  by (cases "entry_id d") (simp_all add: top_ids_def)

lemma collect_nodes_roots:
  "fst (collect_nodes all None (roots, flat))
   = roots @ map (\<lambda>x. the (find_name (snd (collect_nodes all None (roots, flat))) x))
               (take (64 - length roots) (top_ids all))"
proof (induction all arbitrary: roots flat)
  case Nil
  show ?case by (simp add: collect_nodes_Nil top_ids_def)
next
  case (Cons d ds)
  show ?case
  proof (cases "entry_id d")
    case None
    with Cons show ?thesis by (simp add: collect_nodes_Cons collect_entry_skip top_ids_Cons)
  next
    case (Some x)
    obtain roots1 flat1 where s1: "collect_entry None d (roots, flat) = (roots1, flat1)"
      by force
    let ?fin = "snd (collect_nodes ds None (roots1, flat1))"
    from s1 have sf: "fst (collect_entry None d (roots, flat)) = roots1"
      "snd (collect_entry None d (roots, flat)) = flat1" by simp_all
    have r1: "roots1 = (if length roots < 64 then roots @ [the (find_name flat1 x)] else roots)"
      using collect_entry_roots [OF Some, of roots flat] unfolding sf .
    have "map name flat1 = foldl add_name (add_name (map name flat) x)
                             (if length roots < 64 then child_ids d else [])"
      using collect_entry_names [OF Some, of roots flat] unfolding sf .
    then have "x \<in> set (map name flat1)" by (simp add: set_foldl_add_name set_add_name)
    moreover obtain suf where "map name ?fin = map name flat1 @ suf"
      using collect_nodes_prefix [of ds roots1 flat1] by blast
    ultimately have st: "find_name ?fin x = find_name flat1 x"
      using find_name_stable by blast
    show ?thesis
    proof (cases "length roots < 64")
      case True
      then have m: "64 - length roots = Suc (63 - length roots)" by simp
      from True have m1: "64 - length roots1 = 63 - length roots" using r1 by simp
      show ?thesis
        using Cons [of roots1 flat1] True r1 st
        by (simp add: collect_nodes_Cons s1 top_ids_Cons Some m m1)
    next
      case False
      then have "64 - length roots = 0" "roots1 = roots" using r1 by simp_all
      then show ?thesis
        using Cons [of roots1 flat1] by (simp add: collect_nodes_Cons s1)
    qed
  qed
qed

lemma top_entries_Cons:
  "top_entries (d # ds) = (case entry_id d of None \<Rightarrow> top_entries ds | Some x \<Rightarrow> d # top_entries ds)"
  by (simp add: top_entries_def split: option.split)

lemma set_requested:
  "set (requested n all)
   = set (top_ids all) \<union> (\<Union>d \<in> set (take (64 - n) (top_entries all)). set (child_ids d))"
proof (induction all arbitrary: n)
  case Nil
  show ?case by (simp add: top_ids_def top_entries_def)
next
  case (Cons d ds)
  show ?case
  proof (cases "entry_id d")
    case None
    with Cons show ?thesis by (simp add: top_ids_Cons top_entries_Cons)
  next
    case (Some x)
    show ?thesis
    proof (cases "n < 64")
      case True
      then obtain m where m: "64 - n = Suc m" by (cases "64 - n") auto
      then have "64 - Suc n = m" by simp
      with True Some m Cons [of "Suc n"] show ?thesis
        by (auto simp: top_ids_Cons top_entries_Cons)
    next
      case False
      then have "64 - n = 0" by simp
      with False Some Cons [of n] show ?thesis
        by (auto simp: top_ids_Cons top_entries_Cons)
    qed
  qed
qed

section \<open>Sorting keeps the nodes\<close>

lemma fold_opt_invariant:
  assumes "fold_opt f xs s = Some s'" and "P s"
    and "\<And>x t t'. x \<in> set xs \<Longrightarrow> P t \<Longrightarrow> f x t = Some t' \<Longrightarrow> P t'"
  shows "P s'"
  using assms
proof (induction xs arbitrary: s)
  case Nil
  then show ?case by simp
next
  case (Cons x xs)
  from Cons.prems(1) obtain t where t: "f x s = Some t" and r: "fold_opt f xs t = Some s'"
    by (auto split: option.splits)
  from Cons.prems(3) [OF _ Cons.prems(2) t] have pt: "P t" by simp
  have step: "\<And>y u u'. y \<in> set xs \<Longrightarrow> P u \<Longrightarrow> f y u = Some u' \<Longrightarrow> P u'"
    using Cons.prems(3) by (meson list.set_intros(2))
  from Cons.IH [OF r pt step] show ?case .
qed

lemma sort_children_names:
  "sort_children k qs flat n = Some flat' \<Longrightarrow> map name flat' = map name flat"
proof (induction k arbitrary: flat n flat')
  case 0
  then show ?case by simp
next
  case (Suc k)
  show ?case
  proof (cases "length (children (flat ! n)) \<le> 1")
    case True
    with Suc.prems show ?thesis by simp
  next
    case False
    let ?flat1 = "flat[n := (flat ! n)\<lparr>children := qs (node_cmp flat) (children (flat ! n))\<rparr>]"
    from False Suc.prems
    have f: "fold_opt (\<lambda>c fl. sort_children k qs fl c) (children (?flat1 ! n)) ?flat1 = Some flat'"
      by (simp add: Let_def)
    have n1: "map name ?flat1 = map name flat" by (simp add: upd_names)
    show ?thesis
    proof (rule fold_opt_invariant [OF f, where P = "\<lambda>s. map name s = map name flat"])
      show "map name ?flat1 = map name flat" by (rule n1)
    next
      fix x t t'
      assume "map name t = map name flat" "sort_children k qs t x = Some t'"
      with Suc.IH [of t x t'] show "map name t' = map name flat" by simp
    qed
  qed
qed

lemma same_but_child_order_refl: "same_but_child_order a a"
  by (simp add: same_but_child_order_def)

lemma same_but_child_order_trans:
  "same_but_child_order a b \<Longrightarrow> same_but_child_order b c \<Longrightarrow> same_but_child_order a c"
  unfolding same_but_child_order_def
proof (intro conjI allI impI)
  assume ab: "length b = length a \<and> (\<forall>i<length a. b ! i = (a ! i)\<lparr>children := children (b ! i)\<rparr>
                \<and> mset (children (b ! i)) = mset (children (a ! i)))"
    and bc: "length c = length b \<and> (\<forall>i<length b. c ! i = (b ! i)\<lparr>children := children (c ! i)\<rparr>
                \<and> mset (children (c ! i)) = mset (children (b ! i)))"
  show "length c = length a" using ab bc by simp
  fix i assume i: "i < length a"
  with ab have 1: "b ! i = (a ! i)\<lparr>children := children (b ! i)\<rparr>"
    and 2: "mset (children (b ! i)) = mset (children (a ! i))" by simp_all
  from i ab bc have 3: "c ! i = (b ! i)\<lparr>children := children (c ! i)\<rparr>"
    and 4: "mset (children (c ! i)) = mset (children (b ! i))" by simp_all
  have "c ! i = ((a ! i)\<lparr>children := children (b ! i)\<rparr>)\<lparr>children := children (c ! i)\<rparr>"
    using 1 3 by simp
  then show "c ! i = (a ! i)\<lparr>children := children (c ! i)\<rparr>" by simp
  show "mset (children (c ! i)) = mset (children (a ! i))" using 2 4 by simp
qed

lemma same_but_child_order_update:
  "mset cs = mset (children (a ! n)) \<Longrightarrow> same_but_child_order a (a[n := (a ! n)\<lparr>children := cs\<rparr>])"
  unfolding same_but_child_order_def
proof (intro conjI allI impI)
  let ?b = "a[n := (a ! n)\<lparr>children := cs\<rparr>]"
  assume m: "mset cs = mset (children (a ! n))"
  show "length ?b = length a" by simp
  fix i assume i: "i < length a"
  show "?b ! i = (a ! i)\<lparr>children := children (?b ! i)\<rparr>"
    using i by (cases "i = n") simp_all
  show "mset (children (?b ! i)) = mset (children (a ! i))"
    using i m by (cases "i = n") simp_all
qed

lemma sort_children_same:
  "qsort_permutes qs \<Longrightarrow> sort_children k qs flat n = Some flat' \<Longrightarrow> same_but_child_order flat flat'"
proof (induction k arbitrary: flat n flat')
  case 0
  then show ?case by simp
next
  case (Suc k)
  show ?case
  proof (cases "length (children (flat ! n)) \<le> 1")
    case True
    with Suc.prems show ?thesis by (simp add: same_but_child_order_refl)
  next
    case False
    let ?flat1 = "flat[n := (flat ! n)\<lparr>children := qs (node_cmp flat) (children (flat ! n))\<rparr>]"
    from False Suc.prems
    have f: "fold_opt (\<lambda>c fl. sort_children k qs fl c) (children (?flat1 ! n)) ?flat1 = Some flat'"
      by (simp add: Let_def)
    have s1: "same_but_child_order flat ?flat1"
      by (rule same_but_child_order_update) (simp add: qsort_permutes_mset [OF Suc.prems(1)])
    show ?thesis
    proof (rule fold_opt_invariant [OF f, where P = "same_but_child_order flat"])
      show "same_but_child_order flat ?flat1" by (rule s1)
    next
      fix x t t'
      assume "same_but_child_order flat t" "sort_children k qs t x = Some t'"
      with Suc.IH [OF Suc.prems(1), of t x t'] show "same_but_child_order flat t'"
        by (blast intro: same_but_child_order_trans)
    qed
  qed
qed

lemma same_but_child_order_names: "same_but_child_order a b \<Longrightarrow> map name b = map name a"
proof (rule nth_equalityI)
  assume s: "same_but_child_order a b"
  then show "length (map name b) = length (map name a)" by (simp add: same_but_child_order_def)
  fix i assume "i < length (map name b)"
  with s have i: "i < length a" "i < length b" by (simp_all add: same_but_child_order_def)
  with s have "b ! i = (a ! i)\<lparr>children := children (b ! i)\<rparr>" by (simp add: same_but_child_order_def)
  then have "name (b ! i) = name (a ! i)" by (metis node.select_convs(1) node.surjective node.update_convs(9))
  with i show "map name b ! i = map name a ! i" by simp
qed

section \<open>The build as a whole\<close>

lemma build_tree_Built:
  assumes "CFDictionaryGetValue pl ''AllDisksAndPartitions'' = Some (CFArray all)"
    and "build_tree fuel qs pl = Some (Built roots flat)"
  shows "\<exists>roots0 flat0. collect_nodes all None ([], []) = (roots0, flat0)
           \<and> fold_opt (\<lambda>r fl. sort_children fuel qs fl r) roots0 flat0 = Some flat
           \<and> roots = qs (node_cmp flat) roots0"
proof -
  obtain roots0 flat0 where c: "collect_nodes all None ([], []) = (roots0, flat0)" by force
  from assms c show ?thesis
    by (auto simp: build_tree_def split: option.splits)
qed

lemma sort_roots_names:
  "fold_opt (\<lambda>r fl. sort_children fuel qs fl r) roots0 flat0 = Some flat \<Longrightarrow>
   map name flat = map name flat0"
proof (erule fold_opt_invariant [where P = "\<lambda>s. map name s = map name flat0"])
  show "map name flat0 = map name flat0" ..
next
  fix x t t'
  assume "map name t = map name flat0" "sort_children fuel qs t x = Some t'"
  with sort_children_names [of fuel qs t x t'] show "map name t' = map name flat0" by simp
qed

lemma sort_roots_same:
  "qsort_permutes qs \<Longrightarrow> fold_opt (\<lambda>r fl. sort_children fuel qs fl r) roots0 flat0 = Some flat \<Longrightarrow>
   same_but_child_order flat0 flat"
proof (erule fold_opt_invariant [where P = "same_but_child_order flat0"])
  show "same_but_child_order flat0 flat0" by (rule same_but_child_order_refl)
next
  fix x t t'
  assume "qsort_permutes qs" "same_but_child_order flat0 t" "sort_children fuel qs t x = Some t'"
  with sort_children_same [of qs fuel t x t'] show "same_but_child_order flat0 t'"
    by (blast intro: same_but_child_order_trans)
qed


lemma collect_names_set:
  "set (map name (snd (collect_nodes all None ([], []))))
   = set (top_ids all) \<union> (\<Union>d \<in> set (take 64 (top_entries all)). set (child_ids d))"
  by (simp add: collect_nodes_names set_foldl_add_name set_requested)



lemmas build_eval = collect_nodes_def collect_entry_def ensure_node_def node_create_def
  add_partition_def add_apfs_volume_def node_add_child_def array_at_def Let_def

lemma shared_collect:
  "collect_nodes
     shared_entries None ([], [])
   = ([0, 2],
      shared_flat)"
  by (simp add: build_eval shared_entries_def shared_part_def shared_flat_def content_to_fstype_def)

lemma shared_build:
  "build_tree (Suc (Suc k)) insertion_qsort shared_listing
   = Some (Built [0, 2]
      shared_flat)"
  by (simp add: build_tree_def shared_listing_def shared_collect)
     (simp add: shared_flat_def insertion_qsort_def node_cmp_def cmp_eval)

section \<open>Which nodes are attached\<close>

lemma attached_in_update:
  assumes a: "attached_in M roots flat"
    and n: "name n' = name (flat ! i)"
    and c: "\<forall>c \<in> set (children n'). c < length flat \<and> name (flat ! c) \<in> M"
  shows "attached_in M roots (flat[i := n'])"
proof -
  have nm: "name (flat[i := n'] ! p) = name (flat ! p)" if "p < length flat" for p
    using that n by (cases "p = i") simp_all
  have ok: "p < length (flat[i := n']) \<and> name (flat[i := n'] ! p) \<in> M"
    if "p < length flat \<and> name (flat ! p) \<in> M" for p
    using that nm by simp
  show ?thesis
    unfolding attached_in_def
  proof (intro conjI ballI)
    fix r assume "r \<in> set roots"
    with a have "r < length flat \<and> name (flat ! r) \<in> M" by (simp add: attached_in_def)
    then show "r < length (flat[i := n'])" "name (flat[i := n'] ! r) \<in> M" using ok by simp_all
  next
    fix m q assume m: "m \<in> set (flat[i := n'])" and q: "q \<in> set (children m)"
    from m have "m = n' \<or> m \<in> set flat" using set_update_subset_insert [of flat i n'] by auto
    with q a c have "q < length flat \<and> name (flat ! q) \<in> M" by (auto simp: attached_in_def)
    then show "q < length (flat[i := n'])" "name (flat[i := n'] ! q) \<in> M" using ok by simp_all
  qed
qed

lemma attached_in_field:
  assumes "attached_in M roots flat" "name n' = name (flat ! i)" "children n' = children (flat ! i)"
  shows "attached_in M roots (flat[i := n'])"
proof (cases "i < length flat")
  case True
  then have "flat ! i \<in> set flat" by simp
  with assms(1,3) have "\<forall>c \<in> set (children n'). c < length flat \<and> name (flat ! c) \<in> M"
    by (simp add: attached_in_def)
  with assms(1,2) show ?thesis by (rule attached_in_update)
next
  case False
  then have "flat[i := n'] = flat" by (simp add: list_update_beyond)
  with assms(1) show ?thesis by simp
qed

lemma attached_in_append:
  assumes "attached_in M roots flat" "children n = []"
  shows "attached_in M roots (flat @ [n])"
proof -
  have ok: "p < length (flat @ [n]) \<and> name ((flat @ [n]) ! p) \<in> M"
    if "p < length flat \<and> name (flat ! p) \<in> M" for p
    using that by (simp add: nth_append)
  show ?thesis
    unfolding attached_in_def
  proof (intro conjI ballI)
    fix r assume "r \<in> set roots"
    with assms(1) have "r < length flat \<and> name (flat ! r) \<in> M" by (simp add: attached_in_def)
    then show "r < length (flat @ [n])" "name ((flat @ [n]) ! r) \<in> M" using ok by simp_all
  next
    fix m q assume m: "m \<in> set (flat @ [n])" and q: "q \<in> set (children m)"
    with assms(2) have "m \<in> set flat" by auto
    with q assms(1) have "q < length flat \<and> name (flat ! q) \<in> M" by (auto simp: attached_in_def)
    then show "q < length (flat @ [n])" "name ((flat @ [n]) ! q) \<in> M" using ok by simp_all
  qed
qed

lemma attached_in_ensure:
  "attached_in M roots flat \<Longrightarrow> attached_in M roots (snd (ensure_node flat x sz ty))"
  by (cases "find_name flat x") (simp_all add: ensure_node_def attached_in_append node_create_def)

lemma attached_in_add_child:
  assumes a: "attached_in M roots flat" and c: "c < length flat" "name (flat ! c) \<in> M"
  shows "attached_in M roots (node_add_child flat p c)"
proof -
  let ?flat1 = "flat[c := (flat ! c)\<lparr>parent := Some p\<rparr>]"
  have a1: "attached_in M roots ?flat1" by (rule attached_in_field [OF a]) simp_all
  have c1: "c < length ?flat1" "name (?flat1 ! c) \<in> M" using c by simp_all
  show ?thesis
  proof (cases "p < length ?flat1")
    case True
    then have "?flat1 ! p \<in> set ?flat1" by (simp del: length_list_update)
    with a1 have "\<forall>q \<in> set (children (?flat1 ! p)). q < length ?flat1 \<and> name (?flat1 ! q) \<in> M"
      unfolding attached_in_def by blast
    with c1 have ch: "\<forall>q \<in> set (children ((?flat1 ! p)\<lparr>children := children (?flat1 ! p) @ [c]\<rparr>)).
                    q < length ?flat1 \<and> name (?flat1 ! q) \<in> M" by auto
    have nm: "name ((?flat1 ! p)\<lparr>children := children (?flat1 ! p) @ [c]\<rparr>) = name (?flat1 ! p)"
      by simp
    from attached_in_update [OF a1 nm ch] show ?thesis by (simp add: node_add_child_def Let_def)
  next
    case False
    then have "?flat1[p := (?flat1 ! p)\<lparr>children := children (?flat1 ! p) @ [c]\<rparr>] = ?flat1"
      by (simp add: list_update_beyond)
    with a1 show ?thesis by (simp add: node_add_child_def Let_def)
  qed
qed

lemma attached_in_roots_snoc:
  "attached_in M roots flat \<Longrightarrow> i < length flat \<Longrightarrow> name (flat ! i) \<in> M \<Longrightarrow>
   attached_in M (roots @ [i]) flat"
  by (auto simp: attached_in_def)

lemma attached_in_add_partition:
  assumes a: "attached_in M roots flat" and m: "\<forall>x. entry_id part = Some x \<longrightarrow> x \<in> M"
  shows "attached_in M roots (add_partition flat dn part)"
proof (cases "entry_id part")
  case None
  with a show ?thesis by (simp add: add_partition_def entry_id_def)
next
  case (Some x)
  let ?sz = "cfint (CFDictionaryGetValue part ''Size'')"
  let ?c = "case CFDictionaryGetValue part ''Content'' of None \<Rightarrow> None | Some c \<Rightarrow> cfstr (Some c)"
  obtain i flat1 where e: "ensure_node flat x ?sz (Some ''part'') = (i, flat1)" by force
  let ?flat2 = "flat1[i := (flat1 ! i)\<lparr>fstype := content_to_fstype ?c 64\<rparr>]"
  from attached_in_ensure [OF a, of x ?sz "Some ''part''"] e have a1: "attached_in M roots flat1"
    by simp
  have a2: "attached_in M roots ?flat2" by (rule attached_in_field [OF a1]) simp_all
  from ensure_node_result [OF e] Some m
  have i: "i < length ?flat2" "name (?flat2 ! i) \<in> M" by simp_all
  have r: "add_partition flat dn part
           = (case dn of None \<Rightarrow> ?flat2 | Some d \<Rightarrow> node_add_child ?flat2 d i)"
    using Some e by (simp add: add_partition_def entry_id_def Let_def)
  show ?thesis
    unfolding r using a2 attached_in_add_child [OF a2 i] by (cases dn) simp_all
qed

lemma attached_in_add_apfs_volume:
  assumes a: "attached_in M roots flat" and m: "\<forall>x. entry_id vol = Some x \<longrightarrow> x \<in> M"
  shows "attached_in M roots (add_apfs_volume flat dn vol)"
proof (cases "entry_id vol")
  case None
  with a show ?thesis by (simp add: add_apfs_volume_def entry_id_def)
next
  case (Some x)
  let ?sz = "cfint (CFDictionaryGetValue vol ''Size'')"
  obtain i flat1 where e: "ensure_node flat x ?sz (Some ''part'') = (i, flat1)" by force
  from attached_in_ensure [OF a, of x ?sz "Some ''part''"] e have a1: "attached_in M roots flat1"
    by simp
  from ensure_node_result [OF e] Some m
  have i: "i < length flat1" "name (flat1 ! i) \<in> M" by simp_all
  let ?flat2 = "case dn of None \<Rightarrow> flat1 | Some d \<Rightarrow> node_add_child flat1 d i"
  have a2: "attached_in M roots ?flat2"
    using a1 attached_in_add_child [OF a1 i] by (cases dn) simp_all
  let ?flat3 = "case cfstr (CFDictionaryGetValue vol ''MountPoint'') of
                  Some mp \<Rightarrow> if mp \<noteq> [] then ?flat2[i := (?flat2 ! i)\<lparr>mountpoint := mp\<rparr>] else ?flat2
                | None \<Rightarrow> ?flat2"
  have a3: "attached_in M roots ?flat3"
    using a2 attached_in_field [OF a2, of _ i]
    by (cases "cfstr (CFDictionaryGetValue vol ''MountPoint'')") simp_all
  let ?flat4 = "case cfstr (CFDictionaryGetValue vol ''VolumeName'') of
                  Some lab \<Rightarrow> if lab \<noteq> [] then ?flat3[i := (?flat3 ! i)\<lparr>label := lab\<rparr>] else ?flat3
                | None \<Rightarrow> ?flat3"
  have a4: "attached_in M roots ?flat4"
    using a3 attached_in_field [OF a3, of _ i]
    by (cases "cfstr (CFDictionaryGetValue vol ''VolumeName'')") simp_all
  let ?flat5 = "case cfstr (CFDictionaryGetValue vol ''VolumeUUID'') of
                  Some u \<Rightarrow> ?flat4[i := (?flat4 ! i)\<lparr>uuid := u\<rparr>]
                | None \<Rightarrow> ?flat4"
  have a5: "attached_in M roots ?flat5"
    using a4 attached_in_field [OF a4, of _ i]
    by (cases "cfstr (CFDictionaryGetValue vol ''VolumeUUID'')") simp_all
  have r: "add_apfs_volume flat dn vol = ?flat5[i := (?flat5 ! i)\<lparr>fstype := ''apfs''\<rparr>]"
    using Some e by (simp add: add_apfs_volume_def entry_id_def Let_def)
  show ?thesis unfolding r by (rule attached_in_field [OF a5]) simp_all
qed

lemma in_set_map_filter: "f p = Some x \<Longrightarrow> p \<in> set ps \<Longrightarrow> x \<in> set (List.map_filter f ps)"
  by (induction ps) (auto split: option.splits)

lemma attached_in_fold_partitions:
  "attached_in M roots flat \<Longrightarrow> set (List.map_filter entry_id parts) \<subseteq> M \<Longrightarrow>
   attached_in M roots (foldl (\<lambda>fl p. add_partition fl dn p) flat parts)"
proof (induction parts arbitrary: flat)
  case Nil
  then show ?case by simp
next
  case (Cons p parts)
  have "\<forall>x. entry_id p = Some x \<longrightarrow> x \<in> M" using Cons.prems(2) by auto
  from attached_in_add_partition [OF Cons.prems(1) this, of dn]
  have "attached_in M roots (add_partition flat dn p)" .
  moreover have "set (List.map_filter entry_id parts) \<subseteq> M"
    using Cons.prems(2) by (cases "entry_id p") auto
  ultimately show ?case using Cons.IH by simp
qed

lemma attached_in_fold_volumes:
  "attached_in M roots flat \<Longrightarrow> set (List.map_filter entry_id vols) \<subseteq> M \<Longrightarrow>
   attached_in M roots (foldl (\<lambda>fl v. add_apfs_volume fl dn v) flat vols)"
proof (induction vols arbitrary: flat)
  case Nil
  then show ?case by simp
next
  case (Cons p vols)
  have "\<forall>x. entry_id p = Some x \<longrightarrow> x \<in> M" using Cons.prems(2) by auto
  from attached_in_add_apfs_volume [OF Cons.prems(1) this, of dn]
  have "attached_in M roots (add_apfs_volume flat dn p)" .
  moreover have "set (List.map_filter entry_id vols) \<subseteq> M"
    using Cons.prems(2) by (cases "entry_id p") auto
  ultimately show ?case using Cons.IH by simp
qed

lemma attached_in_collect_entry:
  assumes a: "attached_in M roots flat" and x: "entry_id d = Some x"
    and m: "length roots < 64 \<longrightarrow> x \<in> M \<and> set (child_ids d) \<subseteq> M"
  shows "attached_in M (fst (collect_entry None d (roots, flat))) (snd (collect_entry None d (roots, flat)))"
proof -
  from collect_entry_step [OF x, of flat roots]
  obtain i flat1 flat2 sz ty where
    e: "ensure_node flat x sz ty = (i, flat1)"
    and f2: "flat2 = flat1 \<or> (\<exists>v. flat2 = flat1[i := (flat1 ! i)\<lparr>fstype := v\<rparr>])"
    and c: "collect_entry None d (roots, flat) =
          (if 64 \<le> length roots then (roots, flat2)
           else (roots @ [i],
                 foldl (\<lambda>fl v. add_apfs_volume fl (Some i) v)
                   (foldl (\<lambda>fl p. add_partition fl (Some i) p) flat2 (array_at d ''Partitions''))
                   (array_at d ''APFSVolumes'')))"
    by blast
  from attached_in_ensure [OF a, of x sz ty] e have a1: "attached_in M roots flat1" by simp
  have a2: "attached_in M roots flat2"
    using f2 a1 attached_in_field [OF a1, of _ i] by auto
  from ensure_node_result [OF e] f2 have i: "i < length flat2" "name (flat2 ! i) = x" by auto
  show ?thesis
  proof (cases "64 \<le> length roots")
    case True
    with a2 show ?thesis by (simp add: c)
  next
    case False
    with m have xm: "x \<in> M" and cm: "set (child_ids d) \<subseteq> M" by simp_all
    from attached_in_roots_snoc [OF a2 i(1)] i(2) xm
    have "attached_in M (roots @ [i]) flat2" by simp
    from attached_in_fold_partitions [OF this, of "array_at d ''Partitions''" "Some i"] cm
    have "attached_in M (roots @ [i])
            (foldl (\<lambda>fl p. add_partition fl (Some i) p) flat2 (array_at d ''Partitions''))"
      by (simp add: child_ids_def)
    from attached_in_fold_volumes [OF this, of "array_at d ''APFSVolumes''" "Some i"] cm
    show ?thesis using False by (simp add: c child_ids_def)
  qed
qed

lemma attached_in_collect_nodes:
  "attached_in M roots flat \<Longrightarrow>
   set (take (64 - length roots) (top_ids all)) \<subseteq> M \<Longrightarrow>
   (\<forall>d \<in> set (take (64 - length roots) (top_entries all)). set (child_ids d) \<subseteq> M) \<Longrightarrow>
   attached_in M (fst (collect_nodes all None (roots, flat)))
                 (snd (collect_nodes all None (roots, flat)))"
proof (induction all arbitrary: roots flat)
  case Nil
  then show ?case by (simp add: collect_nodes_Nil)
next
  case (Cons d ds)
  show ?case
  proof (cases "entry_id d")
    case None
    with Cons show ?thesis
      by (simp add: collect_nodes_Cons collect_entry_skip top_ids_Cons top_entries_Cons)
  next
    case (Some x)
    obtain roots1 flat1 where s1: "collect_entry None d (roots, flat) = (roots1, flat1)"
      by force
    then have sf: "fst (collect_entry None d (roots, flat)) = roots1"
      "snd (collect_entry None d (roots, flat)) = flat1" by simp_all
    have r1: "roots1 = (if length roots < 64 then roots @ [the (find_name flat1 x)] else roots)"
      using collect_entry_roots [OF Some, of roots flat] unfolding sf .
    show ?thesis
    proof (cases "length roots < 64")
      case True
      then have m: "64 - length roots = Suc (63 - length roots)" by simp
      from True r1 have m1: "64 - length roots1 = 63 - length roots" by simp
      from Cons.prems(2,3) Some m
      have h: "x \<in> M" "set (child_ids d) \<subseteq> M"
        "set (take (63 - length roots) (top_ids ds)) \<subseteq> M"
        "\<forall>e \<in> set (take (63 - length roots) (top_entries ds)). set (child_ids e) \<subseteq> M"
        by (simp_all add: top_ids_Cons top_entries_Cons)
      have "attached_in M roots1 flat1"
        using attached_in_collect_entry [OF Cons.prems(1) Some] h(1,2) unfolding sf by simp
      from Cons.IH [OF this] h(3,4) m1 show ?thesis
        by (simp add: collect_nodes_Cons s1)
    next
      case False
      then have z: "64 - length roots = 0" and rr: "roots1 = roots" using r1 by simp_all
      have "attached_in M roots1 flat1"
        using attached_in_collect_entry [OF Cons.prems(1) Some] False unfolding sf by simp
      from Cons.IH [OF this] z rr show ?thesis
        by (simp add: collect_nodes_Cons s1)
    qed
  qed
qed

lemma attached_in_sorted:
  assumes s: "same_but_child_order flat flat'" and r: "set roots' = set roots"
    and a: "attached_in M roots flat"
  shows "attached_in M roots' flat'"
proof -
  from s have len: "length flat' = length flat" by (simp add: same_but_child_order_def)
  have nm: "name (flat' ! p) = name (flat ! p)" if "p < length flat" for p
    using same_but_child_order_names [OF s] that len by (metis nth_map)
  show ?thesis
    unfolding attached_in_def
  proof (intro conjI ballI)
    fix q assume "q \<in> set roots'"
    with r a have "q < length flat \<and> name (flat ! q) \<in> M" by (simp add: attached_in_def)
    then show "q < length flat'" "name (flat' ! q) \<in> M" using len nm by simp_all
  next
    fix n c assume n: "n \<in> set flat'" and c: "c \<in> set (children n)"
    from n obtain j where j: "j < length flat'" "n = flat' ! j" by (auto simp: in_set_conv_nth)
    with s len have "mset (children n) = mset (children (flat ! j))"
      by (simp add: same_but_child_order_def)
    then have "set (children n) = set (children (flat ! j))" by (metis set_mset_mset)
    with c j len a have "c < length flat \<and> name (flat ! c) \<in> M"
      by (auto simp: attached_in_def)
    then show "c < length flat'" "name (flat' ! c) \<in> M" using len nm by simp_all
  qed
qed

section \<open>The bound on the roots\<close>

lemma fold_sort_trivial:
  "\<forall>r \<in> set roots. length (children (flat ! r)) \<le> 1 \<Longrightarrow>
   fold_opt (\<lambda>r fl. sort_children (Suc k) qs fl r) roots flat = Some flat"
  by (induction roots) simp_all

lemma crowded_collect:
  "(case collect_nodes crowded_entries None ([], []) of
      (roots, flat) \<Rightarrow> length roots = 64 \<and> 1 \<notin> set roots \<and> 0 \<in> set roots
         \<and> children (flat ! 0) = [1] \<and> name (flat ! 1) = ''disk64''
         \<and> children (flat ! 1) = []
         \<and> list_all (\<lambda>r. length (children (flat ! r)) \<le> 1) roots)"
  by (simp add: build_eval crowded_entries_def plain_disk_def dec_nat.simps content_to_fstype_def
      upt_conv_Cons)

lemma crowded_build:
  "\<exists>roots flat. build_tree (Suc k) insertion_qsort crowded_listing = Some (Built roots flat)
      \<and> length roots = 64 \<and> 1 \<notin> set roots \<and> 0 \<in> set roots
      \<and> children (flat ! 0) = [1] \<and> name (flat ! 1) = ''disk64'' \<and> children (flat ! 1) = []"
proof -
  obtain roots0 flat0 where c: "collect_nodes crowded_entries None ([], []) = (roots0, flat0)"
    by force
  from crowded_collect have p: "length roots0 = 64" "1 \<notin> set roots0" "0 \<in> set roots0"
    "children (flat0 ! 0) = [1]" "name (flat0 ! 1) = ''disk64''" "children (flat0 ! 1) = []"
    "list_all (\<lambda>r. length (children (flat0 ! r)) \<le> 1) roots0"
    unfolding c by simp_all
  from p(7) have "\<forall>r \<in> set roots0. length (children (flat0 ! r)) \<le> 1"
    by (simp add: list_all_iff)
  from fold_sort_trivial [OF this]
  have b: "build_tree (Suc k) insertion_qsort crowded_listing
           = Some (Built (insertion_qsort (node_cmp flat0) roots0) flat0)"
    by (simp add: build_tree_def crowded_listing_def c)
  have "length (insertion_qsort (node_cmp flat0) roots0) = 64"
    "set (insertion_qsort (node_cmp flat0) roots0) = set roots0"
    using p(1) by (simp_all add: qsort_permutes_length [OF insertion_qsort_permutes]
        qsort_permutes_set [OF insertion_qsort_permutes])
  with b p show ?thesis by simp
qed

lemma crowded_top:
  "length (top_entries crowded_entries) = 65 \<and> entry_id (crowded_entries ! 64) = Some ''disk64''"
  by (simp add: crowded_entries_def top_entries_def entry_id_def plain_disk_def dec_nat.simps
      upt_conv_Cons)

lemma build_roots_capped:
  assumes q: "qsort_permutes qs"
    and a: "CFDictionaryGetValue pl ''AllDisksAndPartitions'' = Some (CFArray all)"
    and b: "build_tree fuel qs pl = Some (Built roots flat)"
  shows "length roots \<le> 64"
    and "mset roots = mset (map (\<lambda>x. the (find_name flat x)) (take 64 (top_ids all)))"
    and "set (top_ids all) \<subseteq> set (map name flat)"
    and "attached_in (set (take 64 (top_ids all))
                      \<union> (\<Union>d \<in> set (take 64 (top_entries all)). set (child_ids d))) roots flat"
proof -
  from build_tree_Built [OF a b] obtain roots0 flat0 where
    c: "collect_nodes all None ([], []) = (roots0, flat0)"
    and f: "fold_opt (\<lambda>r fl. sort_children fuel qs fl r) roots0 flat0 = Some flat"
    and r: "roots = qs (node_cmp flat) roots0" by blast
  from c have cf: "fst (collect_nodes all None ([], [])) = roots0"
    "snd (collect_nodes all None ([], [])) = flat0" by simp_all
  have n: "map name flat = map name flat0" using sort_roots_names [OF f] .
  have "roots0 = [] @ map (\<lambda>x. the (find_name flat0 x)) (take (64 - length ([]::nat list)) (top_ids all))"
    using collect_nodes_roots [of all "[]" "[]"] unfolding cf .
  then have r0: "roots0 = map (\<lambda>x. the (find_name flat0 x)) (take 64 (top_ids all))" by simp
  have fn: "find_name flat = find_name flat0" by (intro ext) (rule find_name_cong [OF n])
  from r0 have "length roots0 \<le> 64" by simp
  then show "length roots \<le> 64" unfolding r by (simp only: qsort_permutes_length [OF q])
  have "mset roots = mset roots0" unfolding r by (rule qsort_permutes_mset [OF q])
  then show "mset roots = mset (map (\<lambda>x. the (find_name flat x)) (take 64 (top_ids all)))"
    unfolding fn r0 .
  have s0: "set (map name flat0)
            = set (top_ids all) \<union> (\<Union>d \<in> set (take 64 (top_entries all)). set (child_ids d))"
    using collect_names_set [of all] unfolding cf .
  show "set (top_ids all) \<subseteq> set (map name flat)" unfolding n s0 by (rule Un_upper1)
  let ?M = "set (take 64 (top_ids all)) \<union> (\<Union>d \<in> set (take 64 (top_entries all)). set (child_ids d))"
  have a0: "attached_in ?M [] []" by (simp add: attached_in_def)
  have z: "64 - length ([]::nat list) = 64" by simp
  have p1: "set (take (64 - length ([]::nat list)) (top_ids all)) \<subseteq> ?M"
    unfolding z by (rule Un_upper1)
  have p2: "\<forall>d \<in> set (take (64 - length ([]::nat list)) (top_entries all)). set (child_ids d) \<subseteq> ?M"
    unfolding z by blast
  have a1: "attached_in ?M roots0 flat0"
    using attached_in_collect_nodes [OF a0 p1 p2] unfolding cf .
  have so: "same_but_child_order flat0 flat" by (rule sort_roots_same [OF q f])
  have sr: "set roots = set roots0" unfolding r by (rule qsort_permutes_set [OF q])
  show "attached_in ?M roots flat" by (rule attached_in_sorted [OF so sr a1])
qed

section \<open>The walk of mount resolution\<close>

lemma walked_empty: "walked flat ident {} = {}"
proof -
  have "p \<notin> walked flat ident {}" for p
  proof
    assume "p \<in> walked flat ident {}"
    then show False by (induction rule: walked.induct) simp_all
  qed
  then show ?thesis by blast
qed

lemma walked_mono: "A \<subseteq> B \<Longrightarrow> walked flat ident A \<subseteq> walked flat ident B"
proof
  fix p assume s: "A \<subseteq> B" and "p \<in> walked flat ident A"
  from this(2) show "p \<in> walked flat ident B"
  proof (induction rule: walked.induct)
    case (start r)
    with s show ?case by (blast intro: walked.start)
  next
    case (down p c)
    then show ?case by (blast intro: walked.down)
  qed
qed

lemma walked_Un: "walked flat ident (A \<union> B) = walked flat ident A \<union> walked flat ident B"
proof
  show "walked flat ident (A \<union> B) \<subseteq> walked flat ident A \<union> walked flat ident B"
  proof
    fix p assume "p \<in> walked flat ident (A \<union> B)"
    then show "p \<in> walked flat ident A \<union> walked flat ident B"
    proof (induction rule: walked.induct)
      case (start r)
      then show ?case by (blast intro: walked.start)
    next
      case (down p c)
      then show ?case by (blast intro: walked.down)
    qed
  qed
next
  show "walked flat ident A \<union> walked flat ident B \<subseteq> walked flat ident (A \<union> B)"
    using walked_mono [of A "A \<union> B" flat ident] walked_mono [of B "A \<union> B" flat ident] by blast
qed

lemma walked_single_match:
  "name (flat ! n) = ident \<Longrightarrow> walked flat ident {n} = {n}"
proof
  assume m: "name (flat ! n) = ident"
  show "walked flat ident {n} \<subseteq> {n}"
  proof
    fix p assume "p \<in> walked flat ident {n}"
    then show "p \<in> {n}"
    proof (induction rule: walked.induct)
      case (start r)
      then show ?case by simp
    next
      case (down p c)
      with m show ?case by simp
    qed
  qed
next
  show "{n} \<subseteq> walked flat ident {n}" by (simp add: walked.start)
qed

lemma walked_single_nomatch:
  assumes m: "name (flat ! n) \<noteq> ident"
  shows "walked flat ident {n} = insert n (walked flat ident (set (children (flat ! n))))"
proof
  show "walked flat ident {n} \<subseteq> insert n (walked flat ident (set (children (flat ! n))))"
  proof
    fix p assume "p \<in> walked flat ident {n}"
    then show "p \<in> insert n (walked flat ident (set (children (flat ! n))))"
    proof (induction rule: walked.induct)
      case (start r)
      then show ?case by simp
    next
      case (down p c)
      from down.IH show ?case
      proof
        assume "p = n"
        with down.hyps show ?thesis by (simp add: walked.start)
      next
        assume "p \<in> walked flat ident (set (children (flat ! n)))"
        with down.hyps show ?thesis by (blast intro: walked.down)
      qed
    qed
  qed
next
  have "p \<in> walked flat ident {n}" if "p \<in> walked flat ident (set (children (flat ! n)))" for p
    using that
  proof (induction rule: walked.induct)
    case (start r)
    have "n \<in> walked flat ident {n}" by (simp add: walked.start)
    from walked.down [OF this m start] show ?case .
  next
    case (down p c)
    then show ?case by (blast intro: walked.down)
  qed
  then show "insert n (walked flat ident (set (children (flat ! n)))) \<subseteq> walked flat ident {n}"
    by (auto simp: walked.start)
qed

lemma walked_cong_sub:
  assumes "\<forall>p. name (b ! p) = name (a ! p) \<and> children (b ! p) = children (a ! p)"
  shows "walked a ident S \<subseteq> walked b ident S"
proof
  fix p assume "p \<in> walked a ident S"
  then show "p \<in> walked b ident S"
  proof (induction rule: walked.induct)
    case (start r)
    then show ?case by (rule walked.start)
  next
    case (down p c)
    with assms have "name (b ! p) \<noteq> ident" "c \<in> set (children (b ! p))" by simp_all
    with down.IH show ?case by (rule walked.down)
  qed
qed

lemma walked_cong:
  assumes "\<forall>p. name (b ! p) = name (a ! p) \<and> children (b ! p) = children (a ! p)"
  shows "walked b ident S = walked a ident S"
proof
  from assms have "\<forall>p. name (a ! p) = name (b ! p) \<and> children (a ! p) = children (b ! p)" by simp
  then show "walked b ident S \<subseteq> walked a ident S" by (rule walked_cong_sub)
  show "walked a ident S \<subseteq> walked b ident S" using assms by (rule walked_cong_sub)
qed

lemma walked_forest: "walked flat ident S \<subseteq> forest_nodes flat S"
proof
  fix p assume "p \<in> walked flat ident S"
  then show "p \<in> forest_nodes flat S"
  proof (induction rule: walked.induct)
    case (start r)
    then show ?case by (rule forest_nodes.root)
  next
    case (down p c)
    then show ?case by (blast intro: forest_nodes.child)
  qed
qed

text \<open>
  What a walk leaves: the store \<open>b\<close> is the store \<open>a\<close> with the mount point \<open>tgt\<close> in the
  nodes of \<open>W\<close> that carry the identifier.
\<close>

lemma set_mp_match:
  "name (flat ! n) = ident \<Longrightarrow>
   flat[n := (flat ! n)\<lparr>mountpoint := tgt\<rparr>] ! p
   = (if p < length flat \<and> p \<in> {n} \<and> name (flat ! p) = ident
      then (flat ! p)\<lparr>mountpoint := tgt\<rparr> else flat ! p)"
proof (cases "p = n")
  case True
  assume "name (flat ! n) = ident"
  with True show ?thesis by (cases "n < length flat") (simp_all add: list_update_beyond)
next
  case False
  then show ?thesis by simp
qed

lemma walk_compose:
  assumes ab: "\<forall>p. b ! p = (if p < length a \<and> p \<in> walked a ident A \<and> name (a ! p) = ident
                           then (a ! p)\<lparr>mountpoint := tgt\<rparr> else a ! p)"
    and lab: "length b = length a"
    and bc: "\<forall>p. c ! p = (if p < length b \<and> p \<in> walked b ident B \<and> name (b ! p) = ident
                           then (b ! p)\<lparr>mountpoint := tgt\<rparr> else b ! p)"
  shows "\<forall>p. c ! p = (if p < length a \<and> p \<in> walked a ident (A \<union> B) \<and> name (a ! p) = ident
                        then (a ! p)\<lparr>mountpoint := tgt\<rparr> else a ! p)"
proof
  fix p
  have same: "\<forall>q. name (b ! q) = name (a ! q) \<and> children (b ! q) = children (a ! q)"
    using ab by simp
  have w: "walked b ident B = walked a ident B" by (rule walked_cong [OF same])
  from same have nb: "name (b ! p) = name (a ! p)" by simp
  have cp: "c ! p = (if p < length a \<and> p \<in> walked a ident B \<and> name (a ! p) = ident
                     then (b ! p)\<lparr>mountpoint := tgt\<rparr> else b ! p)"
  proof -
    from bc have "c ! p = (if p < length b \<and> p \<in> walked b ident B \<and> name (b ! p) = ident
                     then (b ! p)\<lparr>mountpoint := tgt\<rparr> else b ! p)" by (rule spec)
    then show ?thesis unfolding w lab nb .
  qed
  have bp: "b ! p = (if p < length a \<and> p \<in> walked a ident A \<and> name (a ! p) = ident
                     then (a ! p)\<lparr>mountpoint := tgt\<rparr> else a ! p)"
    using ab by simp
  show "c ! p = (if p < length a \<and> p \<in> walked a ident (A \<union> B) \<and> name (a ! p) = ident
                 then (a ! p)\<lparr>mountpoint := tgt\<rparr> else a ! p)"
    unfolding cp bp walked_Un by auto
qed

lemma set_mountpoint_recursive_effect:
  "set_mountpoint_recursive k flat n ident tgt = Some flat' \<Longrightarrow>
   length flat' = length flat
   \<and> (\<forall>p. flat' ! p = (if p < length flat \<and> p \<in> walked flat ident {n} \<and> name (flat ! p) = ident
                        then (flat ! p)\<lparr>mountpoint := tgt\<rparr> else flat ! p))"
proof (induction k arbitrary: flat n flat')
  case 0
  then show ?case by simp
next
  case (Suc k)
  have fold: "length b = length a
       \<and> (\<forall>p. b ! p = (if p < length a \<and> p \<in> walked a ident (set cs) \<and> name (a ! p) = ident
                        then (a ! p)\<lparr>mountpoint := tgt\<rparr> else a ! p))"
    if "fold_opt (\<lambda>c fl. set_mountpoint_recursive k fl c ident tgt) cs a = Some b" for cs a b
    using that
  proof (induction cs arbitrary: a)
    case Nil
    then show ?case by (simp add: walked_empty)
  next
    case (Cons c cs)
    from Cons.prems obtain m where m: "set_mountpoint_recursive k a c ident tgt = Some m"
      and r: "fold_opt (\<lambda>c fl. set_mountpoint_recursive k fl c ident tgt) cs m = Some b"
      by (auto split: option.splits)
    from Suc.IH [OF m] have lm: "length m = length a"
      and am: "\<forall>p. m ! p = (if p < length a \<and> p \<in> walked a ident {c} \<and> name (a ! p) = ident
                        then (a ! p)\<lparr>mountpoint := tgt\<rparr> else a ! p)" by simp_all
    from Cons.IH [OF r] have lb: "length b = length m"
      and mb: "\<forall>p. b ! p = (if p < length m \<and> p \<in> walked m ident (set cs) \<and> name (m ! p) = ident
                        then (m ! p)\<lparr>mountpoint := tgt\<rparr> else m ! p)" by simp_all
    from walk_compose [OF am lm mb] lb lm show ?case by simp
  qed
  show ?case
  proof (cases "name (flat ! n) = ident")
    case True
    with Suc.prems have f: "flat' = flat[n := (flat ! n)\<lparr>mountpoint := tgt\<rparr>]" by simp
    show ?thesis
      unfolding f walked_single_match [OF True] using set_mp_match [OF True] by simp
  next
    case False
    with Suc.prems
    have "fold_opt (\<lambda>c fl. set_mountpoint_recursive k fl c ident tgt) (children (flat ! n)) flat
          = Some flat'" by simp
    from fold [OF this] False show ?thesis
      unfolding walked_single_nomatch [OF False] by auto
  qed
qed

lemma fold_set_mountpoint_effect:
  "fold_opt (\<lambda>c fl. set_mountpoint_recursive k fl c ident tgt) cs a = Some b \<Longrightarrow>
   length b = length a
   \<and> (\<forall>p. b ! p = (if p < length a \<and> p \<in> walked a ident (set cs) \<and> name (a ! p) = ident
                    then (a ! p)\<lparr>mountpoint := tgt\<rparr> else a ! p))"
proof (induction cs arbitrary: a)
  case Nil
  then show ?case by (simp add: walked_empty)
next
  case (Cons c cs)
  from Cons.prems obtain m where m: "set_mountpoint_recursive k a c ident tgt = Some m"
    and r: "fold_opt (\<lambda>c fl. set_mountpoint_recursive k fl c ident tgt) cs m = Some b"
    by (auto split: option.splits)
  from set_mountpoint_recursive_effect [OF m] have lm: "length m = length a"
    and am: "\<forall>p. m ! p = (if p < length a \<and> p \<in> walked a ident {c} \<and> name (a ! p) = ident
                      then (a ! p)\<lparr>mountpoint := tgt\<rparr> else a ! p)" by simp_all
  from Cons.IH [OF r] have lb: "length b = length m"
    and mb: "\<forall>p. b ! p = (if p < length m \<and> p \<in> walked m ident (set cs) \<and> name (m ! p) = ident
                      then (m ! p)\<lparr>mountpoint := tgt\<rparr> else m ! p)" by simp_all
  from walk_compose [OF am lm mb] lb lm show ?case by simp
qed

lemma depth_le_cong:
  "\<forall>p. children (b ! p) = children (a ! p) \<Longrightarrow> depth_le k b n = depth_le k a n"
  by (induction k arbitrary: n) simp_all

lemma effect_children:
  "\<forall>p. b ! p = (if p < length a \<and> p \<in> W \<and> name (a ! p) = ident
                  then (a ! p)\<lparr>mountpoint := tgt\<rparr> else a ! p) \<Longrightarrow>
   \<forall>p. children (b ! p) = children (a ! p)"
  by simp

lemma fold_set_mountpoint_returns:
  assumes step: "\<And>a n. depth_le k a n \<Longrightarrow> \<exists>b. set_mountpoint_recursive k a n ident tgt = Some b"
  shows "\<forall>c \<in> set cs. depth_le k a c \<Longrightarrow>
         \<exists>b. fold_opt (\<lambda>c fl. set_mountpoint_recursive k fl c ident tgt) cs a = Some b"
proof (induction cs arbitrary: a)
  case Nil
  show ?case by simp
next
  case (Cons c cs)
  from Cons.prems have "depth_le k a c" by simp
  from step [OF this] obtain m where m: "set_mountpoint_recursive k a c ident tgt = Some m" ..
  from set_mountpoint_recursive_effect [OF m]
  have ch: "\<forall>p. children (m ! p) = children (a ! p)" by simp
  from Cons.prems have "\<forall>c \<in> set cs. depth_le k m c" by (simp add: depth_le_cong [OF ch])
  from Cons.IH [OF this] m show ?case by simp
qed

lemma set_mountpoint_recursive_returns:
  "depth_le k flat n \<Longrightarrow> \<exists>flat'. set_mountpoint_recursive k flat n ident tgt = Some flat'"
proof (induction k arbitrary: flat n)
  case 0
  then show ?case by simp
next
  case (Suc k)
  show ?case
  proof (cases "name (flat ! n) = ident")
    case True
    then show ?thesis by simp
  next
    case False
    from Suc.prems have "\<forall>c \<in> set (children (flat ! n)). depth_le k flat c" by simp
    from fold_set_mountpoint_returns [of k ident tgt, OF Suc.IH this] False
    show ?thesis by simp
  qed
qed

lemma depth_le_Suc: "depth_le k flat n \<Longrightarrow> depth_le (Suc k) flat n"
  by (induction k arbitrary: n) auto

lemma mount_entry_returns:
  assumes "\<forall>r \<in> set roots. depth_le fuel flat r"
  shows "\<exists>flat'. mount_entry fuel roots e flat = Some flat'
                 \<and> (\<forall>p. children (flat' ! p) = children (flat ! p))"
proof (cases e)
  case (Pair src tgt)
  show ?thesis
  proof (cases "starts_with src ''/dev/''")
    case False
    with Pair show ?thesis by (simp add: mount_entry_def)
  next
    case True
    from fold_set_mountpoint_returns [of fuel "drop 5 src" tgt roots flat,
        OF set_mountpoint_recursive_returns assms]
    obtain b where b: "fold_opt (\<lambda>c fl. set_mountpoint_recursive fuel fl c (drop 5 src) tgt) roots flat
                       = Some b" ..
    from fold_set_mountpoint_effect [OF b] have "\<forall>p. children (b ! p) = children (flat ! p)"
      by simp
    with b True Pair show ?thesis by (simp add: mount_entry_def)
  qed
qed

lemma fill_mountpoints_returns:
  assumes "\<forall>r \<in> set roots. depth_le fuel flat r"
  shows "\<exists>flat'. fill_mountpoints fuel mnt roots flat = Some flat'"
proof (cases mnt)
  case None
  then show ?thesis by (simp add: fill_mountpoints_def)
next
  case (Some tbl)
  have "\<exists>flat'. fold_opt (mount_entry fuel roots) tbl a = Some flat'"
    if "\<forall>r \<in> set roots. depth_le fuel a r" for a
    using that
  proof (induction tbl arbitrary: a)
    case Nil
    show ?case by simp
  next
    case (Cons e tbl)
    from mount_entry_returns [OF Cons.prems, of e] obtain m where
      m: "mount_entry fuel roots e a = Some m" and ch: "\<forall>p. children (m ! p) = children (a ! p)"
      by blast
    from Cons.prems have "\<forall>r \<in> set roots. depth_le fuel m r" by (simp add: depth_le_cong [OF ch])
    from Cons.IH [OF this] m show ?case by simp
  qed
  from this [OF assms] Some show ?thesis by (simp add: fill_mountpoints_def)
qed

lemma mount_entry_no_prefix:
  "\<not> starts_with src ''/dev/'' \<Longrightarrow> mount_entry fuel roots (src, tgt) flat = Some flat"
  by (simp add: mount_entry_def)

lemma mount_entry_prefix:
  "mount_entry fuel roots (''/dev/'' @ ident, tgt) flat
   = fold_opt (\<lambda>r fl. set_mountpoint_recursive fuel fl r ident tgt) roots flat"
  by (simp add: mount_entry_def starts_with_def)

lemma twin_mount:
  "mount_entry (Suc (Suc k)) [0] (''/dev/disk0s1'', ''/mnt'') (twin_flat [] [])
   = Some (twin_flat ''/mnt'' ''/mnt'')"
  by (simp add: mount_entry_def starts_with_def twin_flat_def)

section \<open>The exits of the program\<close>

lemma main_listing_unavailable:
  assumes "fst (parse_output_option (strdup_ok e) (opt_o ops)) = 0"
    and "get_list_plist (diskutil_list e) = None"
  shows "main fuel qs ops e = Some (Inr (1, [], ''mlsblk: failed to run diskutil list -plist'' @ nl))"
proof -
  obtain cols0 where "parse_output_option (strdup_ok e) (opt_o ops) = (0, cols0)"
    using assms(1) by (cases "parse_output_option (strdup_ok e) (opt_o ops)") auto
  with assms(2) show ?thesis by (simp add: main_def main_run_def)
qed

lemma main_listing_malformed:
  assumes "fst (parse_output_option (strdup_ok e) (opt_o ops)) = 0"
    and "get_list_plist (diskutil_list e) = Some pl"
    and "\<forall>all. CFDictionaryGetValue pl ''AllDisksAndPartitions'' \<noteq> Some (CFArray all)"
  shows "main fuel qs ops e = Some (Inr (1, [], ''mlsblk: failed to parse disk list'' @ nl))"
proof -
  from assms(3) have "build_tree fuel qs pl = Some Build_Failed"
    by (auto simp: build_tree_def split: option.split cfval.split)
  moreover obtain cols0 where "parse_output_option (strdup_ok e) (opt_o ops) = (0, cols0)"
    using assms(1) by (cases "parse_output_option (strdup_ok e) (opt_o ops)") auto
  ultimately show ?thesis using assms(2) by (simp add: main_def main_run_def)
qed

lemma get_list_plist_None_iff:
  "get_list_plist plist = None \<longleftrightarrow> (\<forall>kvs. plist \<noteq> Some (CFDictionary kvs))"
  by (auto simp: get_list_plist_def split: option.split cfval.split)

lemma main_status:
  "main fuel qs ops e = Some (Inr (st, out, err)) \<Longrightarrow> (st = 0 \<and> err = []) \<or> (st = 1 \<and> out = [])"
  by (auto simp: main_def main_run_def Let_def
      split: prod.splits if_splits option.splits build_result.splits sum.splits)

lemma cyclic_collect:
  "collect_nodes
     [CFDictionary [(''DeviceIdentifier'', CFString ''disk0''),
                    (''Partitions'', CFArray [CFDictionary [(''DeviceIdentifier'', CFString ''disk0'')]])]]
     None ([], []) = ([0], [cyclic_disk0])"
  by (simp add: build_eval cyclic_disk0_def content_to_fstype_def)

lemma cyclic_build:
  "build_tree (Suc k) insertion_qsort cyclic_listing = Some (Built [0] [cyclic_disk0])"
  by (simp add: build_tree_def cyclic_listing_def cyclic_collect)
     (simp add: cyclic_disk0_def insertion_qsort_def)

lemma print_tree_cyclic: "print_tree k [cyclic_disk0] 0 cols prefix last_sib = None"
proof (induction k arbitrary: prefix last_sib)
  case 0
  show ?case by simp
next
  case (Suc k)
  have c: "children cyclic_disk0 = [0]" by (simp add: cyclic_disk0_def)
  show ?case by (simp add: c Suc Let_def)
qed

lemma set_mountpoint_cyclic:
  "ident \<noteq> ''disk0'' \<Longrightarrow> set_mountpoint_recursive k [cyclic_disk0] 0 ident tgt = None"
proof (induction k)
  case 0
  show ?case by simp
next
  case (Suc k)
  have c: "children cyclic_disk0 = [0]" "name cyclic_disk0 = ''disk0''"
    by (simp_all add: cyclic_disk0_def)
  from Suc show ?case by (simp add: c)
qed

lemma cyclic_main: "main fuel insertion_qsort default_opts cyclic_env = None"
proof -
  have cols: "parse_output_option (strdup_ok cyclic_env) (opt_o default_opts)
        = (0, [COL_NAME, COL_SIZE, COL_TYPE, COL_MOUNTPOINT])"
    by (simp add: cyclic_env_def default_opts_def default_cols_value)
  have f: "opt_f default_opts = False" "opt_J default_opts = False" "opt_list default_opts = False"
    by (simp_all add: default_opts_def)
  have l: "get_list_plist (diskutil_list cyclic_env) = Some cyclic_listing"
    by (simp add: get_list_plist_def cyclic_env_def cyclic_listing_def)
  have mn: "mntinfo cyclic_env = None" by (simp add: cyclic_env_def)
  show ?thesis
  proof (cases fuel)
    case 0
    have "build_tree 0 insertion_qsort cyclic_listing = None"
      by (simp add: build_tree_def cyclic_listing_def cyclic_collect)
    with 0 show ?thesis by (simp add: main_def cols f main_run_def l)
  next
    case (Suc k)
    have "print_forest (Suc k) [cyclic_disk0] [0] cols = None" for cols
      by (simp add: print_forest_def print_tree_cyclic del: print_tree.simps)
    with Suc show ?thesis
      by (simp add: main_def cols f main_run_def l cyclic_build mn fill_mountpoints_def render_def)
  qed
qed

section \<open>Sorting by the comparator\<close>

lemma set_insert_by: "set (insert_by c x ys) = insert x (set ys)"
  by (induction ys) auto

lemma consistent_on_subset: "consistent_on c S \<Longrightarrow> T \<subseteq> S \<Longrightarrow> consistent_on c T"
  unfolding consistent_on_def by (meson subsetD)

lemma insert_by_sorted:
  assumes "consistent_on c (insert x (set ys))" "sorted_wrt (\<lambda>a b. c a b \<le> 0) ys"
  shows "sorted_wrt (\<lambda>a b. c a b \<le> 0) (insert_by c x ys)"
  using assms
proof (induction ys)
  case Nil
  show ?case by simp
next
  case (Cons y ys)
  have sub: "consistent_on c (insert x (set ys))"
    by (rule consistent_on_subset [OF Cons.prems(1)]) auto
  have tot: "c x y \<le> 0 \<or> c y x \<le> 0"
    using Cons.prems(1) unfolding consistent_on_def by simp
  have tr: "c a b \<le> 0 \<Longrightarrow> c b d \<le> 0 \<Longrightarrow> c a d \<le> 0"
    if "a \<in> insert x (set (y # ys))" "b \<in> insert x (set (y # ys))" "d \<in> insert x (set (y # ys))"
    for a b d
    using Cons.prems(1) that unfolding consistent_on_def by blast
  have ys: "sorted_wrt (\<lambda>a b. c a b \<le> 0) ys" and y: "\<forall>z \<in> set ys. c y z \<le> 0"
    using Cons.prems(2) by simp_all
  show ?case
  proof (cases "c x y \<le> 0")
    case True
    have "\<forall>z \<in> set ys. c x z \<le> 0"
    proof
      fix z assume z: "z \<in> set ys"
      show "c x z \<le> 0" using tr [of x y z] True y z by simp
    qed
    with True Cons.prems(2) show ?thesis by simp
  next
    case False
    with tot have yx: "c y x \<le> 0" by simp
    have "sorted_wrt (\<lambda>a b. c a b \<le> 0) (insert_by c x ys)"
      using Cons.IH [OF sub ys] .
    with False yx y show ?thesis by (simp add: set_insert_by)
  qed
qed

lemma insertion_qsort_sorts: "qsort_sorts insertion_qsort"
  unfolding qsort_sorts_def insertion_qsort_def
proof (intro allI conjI impI)
  fix c xs
  show "mset (foldr (insert_by c) xs []) = mset xs"
    by (induction xs) (simp_all add: insert_by_mset)
  have set_eq: "set (foldr (insert_by c) ys []) = set ys" for ys
    by (induction ys) (simp_all add: set_insert_by)
  assume "consistent_on c (set xs)"
  then show "sorted_wrt (\<lambda>a b. c a b \<le> 0) (foldr (insert_by c) xs [])"
  proof (induction xs)
    case Nil
    show ?case by simp
  next
    case (Cons x xs)
    have sub: "consistent_on c (set xs)"
      by (rule consistent_on_subset [OF Cons.prems]) auto
    have "consistent_on c (insert x (set (foldr (insert_by c) xs [])))"
      using Cons.prems by (simp add: set_eq)
    from insert_by_sorted [OF this Cons.IH [OF sub]] show ?case by simp
  qed
qed

lemma qsort_sorts_permutes: "qsort_sorts qs \<Longrightarrow> qsort_permutes qs"
  by (simp add: qsort_sorts_def qsort_permutes_def)

lemma mset_pair_cases: "mset xs = {#a, b#} \<Longrightarrow> xs = [a, b] \<or> xs = [b, a]"
proof -
  assume m: "mset xs = {#a, b#}"
  then have "length xs = 2" by (metis size_mset size_add_mset size_empty numeral_2_eq_2)
  then obtain u v where xs: "xs = [u, v]"
    by (metis (no_types) length_0_conv length_Suc_conv numeral_2_eq_2)
  with m have "{#u, v#} = {#a, b#}" by simp
  then have "(u = a \<and> v = b) \<or> (u = b \<and> v = a)"
    by (auto simp: add_eq_conv_ex)
  with xs show ?thesis by auto
qed

lemma qsort_sorts_swap:
  assumes "qsort_sorts qs" "c a b > 0" "c b a \<le> 0" "c a a \<le> 0" "c b b \<le> 0"
  shows "qs c [a, b] = [b, a]"
proof -
  have cons: "consistent_on c (set [a, b])"
    using assms(2-5) unfolding consistent_on_def by auto
  from assms(1) have m: "mset (qs c [a, b]) = mset [a, b]"
    and s: "sorted_wrt (\<lambda>a b. c a b \<le> 0) (qs c [a, b])"
    using cons unfolding qsort_sorts_def by blast+
  from m have "qs c [a, b] = [b, a] \<or> qs c [a, b] = [a, b]"
    using mset_pair_cases [of "qs c [a, b]" b a] by (simp add: add_mset_commute)
  moreover have "qs c [a, b] \<noteq> [a, b]"
  proof
    assume "qs c [a, b] = [a, b]"
    with s have "c a b \<le> 0" by simp
    with assms(2) show False by simp
  qed
  ultimately show ?thesis by simp
qed

section \<open>A listing with identifiers above one hundred\<close>

lemma fmt_size_zero: "fmt_size 0 32 = ''0.0B''"
proof -
  have 1: "u64_to_double 0 = 0" by (simp add: u64_to_double_def)
  have 2: "fmt_scale 0 0 = (0, 0)" by (simp add: fmt_scale.simps)
  have 3: "fmt_1f 0 = ''0.0''" by (simp add: fmt_1f_def round_half_even_def Let_def dec_nat.simps)
  show ?thesis by (simp add: fmt_size_def 1 2 3 units_def snprintf_def)
qed

lemma numbered_collect:
  "collect_nodes numbered_entries None ([], [])
   = ([0, 3], numbered_flat[0 := (numbered_flat ! 0)\<lparr>children := [1, 2]\<rparr>])"
  by (simp add: build_eval numbered_entries_def numbered_flat_def content_to_fstype_def str_eval)

lemma numbered_cmp:
  "name_cmp (Some ''disk12s12'') (Some ''disk12s100'') = 1"
  "name_cmp (Some ''disk12s100'') (Some ''disk12s12'') = - 1"
  "name_cmp (Some ''disk12'') (Some ''disk100'') = 1"
  "name_cmp (Some ''disk100'') (Some ''disk12'') = - 1"
  "name_cmp (Some ''disk12s12'') (Some ''disk12s12'') = 0"
  "name_cmp (Some ''disk12s100'') (Some ''disk12s100'') = 0"
  "name_cmp (Some ''disk12'') (Some ''disk12'') = 0"
  "name_cmp (Some ''disk100'') (Some ''disk100'') = 0"
  by (simp_all add: cmp_eval)

lemma numbered_build:
  assumes "qsort_sorts qs"
  shows "build_tree (Suc (Suc k)) qs numbered_listing = Some (Built [3, 0] numbered_flat)"
proof -
  let ?flat0 = "numbered_flat[0 := (numbered_flat ! 0)\<lparr>children := [1, 2]\<rparr>]"
  have ch: "qs (node_cmp ?flat0) [1, 2] = [2, 1]"
    by (rule qsort_sorts_swap [OF assms])
       (simp_all add: node_cmp_def numbered_flat_def numbered_cmp del: name_cmp.simps)
  have rt: "qs (node_cmp numbered_flat) [0, 3] = [3, 0]"
    by (rule qsort_sorts_swap [OF assms])
       (simp_all add: node_cmp_def numbered_flat_def numbered_cmp del: name_cmp.simps)
  have s0: "sort_children (Suc (Suc k)) qs ?flat0 0 = Some numbered_flat"
    using ch by (simp add: numbered_flat_def)
  have s3: "sort_children (Suc (Suc k)) qs numbered_flat 3 = Some numbered_flat"
    by (simp add: numbered_flat_def)
  have fo: "fold_opt (\<lambda>r fl. sort_children (Suc (Suc k)) qs fl r) [0, 3] ?flat0 = Some numbered_flat"
    using s0 s3 by (simp del: sort_children.simps)
  show ?thesis
    using fo rt
    by (simp add: build_tree_def numbered_listing_def numbered_collect del: sort_children.simps fold_opt.simps)
qed

lemma numbered_forest:
  "print_forest (Suc (Suc k)) numbered_flat [3, 0] [COL_NAME, COL_SIZE, COL_TYPE, COL_MOUNTPOINT]
   = Some (''NAME SIZE TYPE MOUNTPOINT'' @ nl
           @ ''disk100 0.0B disk '' @ nl
           @ ''disk12 0.0B disk '' @ nl
           @ ''  '' @ box_tee @ box_horiz @ box_horiz @ '' disk12s100 0.0B part '' @ nl
           @ ''  '' @ box_last @ box_horiz @ box_horiz @ '' disk12s12 0.0B part '' @ nl)"
  by (simp add: print_forest_def header_def join_sp_def tree_cells_def snprintf_def
      numbered_flat_def fmt_size_zero Let_def)

lemma numbered_free: "free_roots (Suc (Suc k)) numbered_flat [3, 0] = Some (Inr [1, 2, 0, 3])"
  by (simp add: free_roots_def numbered_flat_def)

lemma numbered_main:
  assumes "qsort_sorts qs"
  shows "main (Suc (Suc k)) qs default_opts numbered_env
   = Some (Inr (0, ''NAME SIZE TYPE MOUNTPOINT'' @ nl
           @ ''disk100 0.0B disk '' @ nl
           @ ''disk12 0.0B disk '' @ nl
           @ ''  '' @ box_tee @ box_horiz @ box_horiz @ '' disk12s100 0.0B part '' @ nl
           @ ''  '' @ box_last @ box_horiz @ box_horiz @ '' disk12s12 0.0B part '' @ nl, []))"
proof -
  have cols: "parse_output_option (strdup_ok numbered_env) (opt_o default_opts)
        = (0, [COL_NAME, COL_SIZE, COL_TYPE, COL_MOUNTPOINT])"
    by (simp add: numbered_env_def default_opts_def default_cols_value)
  have f: "opt_f default_opts = False" "opt_J default_opts = False" "opt_list default_opts = False"
    by (simp_all add: default_opts_def)
  have l: "get_list_plist (diskutil_list numbered_env) = Some numbered_listing"
    by (simp add: get_list_plist_def numbered_env_def numbered_listing_def)
  have mn: "mntinfo numbered_env = None" by (simp add: numbered_env_def)
  show ?thesis
    by (simp add: main_def cols f main_run_def l numbered_build [OF assms] mn
        fill_mountpoints_def render_def numbered_forest numbered_free)
qed

section \<open>The teardown on a shared node\<close>

text \<open>
  For the listing in which \<open>disk0\<close> lists \<open>disk0s1\<close> twice and \<open>disk1\<close> lists it again,
  the run renders and then frees \<open>disk0s1\<close> a second time.
\<close>

lemma shared_forest_returns:
  "\<exists>out. print_forest (Suc (Suc k)) shared_flat [0, 2] [COL_NAME, COL_SIZE, COL_TYPE, COL_MOUNTPOINT] = Some out"
  by (simp add: print_forest_def header_def join_sp_def tree_cells_def snprintf_def
      shared_flat_def fmt_size_zero Let_def)

lemma shared_free: "free_roots (Suc (Suc k)) shared_flat [0, 2] = Some (Inl Double_Free)"
  by (simp add: free_roots_def shared_flat_def)

lemma shared_main: "main (Suc (Suc k)) insertion_qsort default_opts shared_env = Some (Inl Double_Free)"
proof -
  have cols: "parse_output_option (strdup_ok shared_env) (opt_o default_opts)
        = (0, [COL_NAME, COL_SIZE, COL_TYPE, COL_MOUNTPOINT])"
    by (simp add: shared_env_def default_opts_def default_cols_value)
  have f: "opt_f default_opts = False" "opt_J default_opts = False" "opt_list default_opts = False"
    by (simp_all add: default_opts_def)
  have l: "get_list_plist (diskutil_list shared_env) = Some shared_listing"
    by (simp add: get_list_plist_def shared_env_def shared_listing_def)
  have mn: "mntinfo shared_env = None" by (simp add: shared_env_def)
  obtain out where out: "print_forest (Suc (Suc k)) shared_flat [0, 2] [COL_NAME, COL_SIZE, COL_TYPE, COL_MOUNTPOINT] = Some out"
    using shared_forest_returns by blast
  show ?thesis
    by (simp add: main_def cols f main_run_def l shared_build mn
        fill_mountpoints_def render_def out shared_free)
qed

section \<open>The run under \<open>-f\<close>\<close>

lemma main_enriched:
  assumes "opt_f ops"
    and "parse_output_option (strdup_ok e) (opt_o ops) = (0, cols0)"
    and "get_list_plist (diskutil_list e) = Some pl"
    and "build_tree fuel qs pl = Some (Built roots flat)"
    and "fill_mountpoints fuel (mntinfo e) roots flat = Some flat1"
  shows "main fuel qs ops e =
           (case render fuel ops
                   (if opt_o ops = None
                    then snd (parse_columns (strdup_ok e) ''NAME,SIZE,TYPE,FSTYPE,MOUNTPOINT,LABEL,UUID'')
                    else cols0)
                   roots (fill_info_all (diskutil_info e) flat1) of
              None \<Rightarrow> None
            | Some out \<Rightarrow>
                (case free_roots fuel (fill_info_all (diskutil_info e) flat1) roots of
                   None \<Rightarrow> None
                 | Some (Inl err) \<Rightarrow> Some (Inl err)
                 | Some (Inr freed) \<Rightarrow> Some (Inr (0, out, []))))"
  using assms by (simp add: main_def main_run_def Let_def)

lemma fill_info_all_length: "length (fill_info_all info flat) = length flat"
  by (simp add: fill_info_all_map)

lemma fill_info_all_nth: "i < length flat \<Longrightarrow> fill_info_all info flat ! i = fill_info info (flat ! i)"
  by (simp add: fill_info_all_map)

lemma enriched_mounts:
  "fill_mountpoints (Suc (Suc k)) (mntinfo enriched_env) [0] [scenario_disk0, scenario_disk0s1 []]
   = Some [scenario_disk0\<lparr>mountpoint := ''/Volumes/Whole''\<rparr>, scenario_disk0s1 ''/Volumes/Old'']"
  by (simp add: enriched_env_def fill_mountpoints_def mount_entry_def starts_with_def
      scenario_disk0_def scenario_disk0s1_def)

lemma enriched_fill:
  "fill_info_all enriched_info
     [scenario_disk0\<lparr>mountpoint := ''/Volumes/Whole''\<rparr>, scenario_disk0s1 ''/Volumes/Old'']
   = [scenario_disk0\<lparr>mountpoint := ''/Volumes/Whole''\<rparr>, scenario_disk0s1 ''/Volumes/New'']"
  by (simp add: fill_info_all_map fill_info_def get_info_plist_def enriched_info_def
      scenario_disk0_def scenario_disk0s1_def)

lemma full_cols_value:
  "parse_columns True ''NAME,SIZE,TYPE,FSTYPE,MOUNTPOINT,LABEL,UUID''
   = (0, [COL_NAME, COL_SIZE, COL_TYPE, COL_FSTYPE, COL_MOUNTPOINT, COL_LABEL, COL_UUID])"
  by (simp add: cols_eval)

lemma enriched_forest:
  "print_forest (Suc (Suc k))
     [scenario_disk0\<lparr>mountpoint := ''/Volumes/Whole''\<rparr>, scenario_disk0s1 ''/Volumes/New''] [0]
     [COL_NAME, COL_SIZE, COL_TYPE, COL_FSTYPE, COL_MOUNTPOINT, COL_LABEL, COL_UUID]
   = Some (''NAME SIZE TYPE FSTYPE MOUNTPOINT LABEL UUID'' @ nl
           @ ''disk0 113.0G disk  /Volumes/Whole  '' @ nl
           @ ''  '' @ box_last @ box_horiz @ box_horiz
           @ '' disk0s1 112.9G part apfs /Volumes/New  '' @ nl)"
  by (simp add: print_forest_def header_def join_sp_def tree_cells_def snprintf_def
      scenario_disk0_def scenario_disk0s1_def fmt_size_disk0 fmt_size_disk0s1 Let_def)

lemma enriched_free:
  "free_roots (Suc (Suc k))
     [scenario_disk0\<lparr>mountpoint := ''/Volumes/Whole''\<rparr>, scenario_disk0s1 ''/Volumes/New''] [0]
   = Some (Inr [1, 0])"
  by (simp add: free_roots_def scenario_disk0_def scenario_disk0s1_def)

section \<open>Claim C1: the tree of the scenario\<close>

text \<open>
  Claim C1, amended. For the bulk listing with the one disk \<open>disk0\<close> (121332826112 bytes,
  content \<open>GUID_partition_scheme\<close>) and its one partition \<open>disk0s1\<close> (121213132800 bytes,
  content \<open>Apple_APFS\<close>), and the mount table with \<open>/dev/disk0s1\<close> on \<open>/\<close>, the run with the
  default columns exits with status 0 and writes three lines: the header
  \<open>NAME SIZE TYPE MOUNTPOINT\<close>, the root row \<open>disk0 113.0G disk \<close>, which ends with a space
  because the empty mount point is still written after its separator, and the child row
  with two spaces, the corner connector, \<open>disk0s1 112.9G part /\<close>. The sizes are scaled by
  1024 and rounded to one decimal. This holds for every \<open>qsort\<close> that rearranges its input
  and every depth bound of at least two.
\<close>

theorem scenario_tree_output:
  "qsort_permutes qs \<Longrightarrow>
   main (Suc (Suc k)) qs default_opts scenario_env
   = Some (Inr (0, ''NAME SIZE TYPE MOUNTPOINT'' @ nl @ ''disk0 113.0G disk '' @ nl
              @ ''  '' @ box_last @ box_horiz @ box_horiz @ '' disk0s1 112.9G part /'' @ nl, []))"
  by (rule scenario_main_value)

text \<open>The theorem with the insertion sort for \<open>qsort\<close>, at the depth bound two.\<close>

theorem scenario_tree_output_witness:
  "qsort_permutes insertion_qsort
   \<and> main (Suc (Suc 0)) insertion_qsort default_opts scenario_env
     = Some (Inr (0, ''NAME SIZE TYPE MOUNTPOINT'' @ nl @ ''disk0 113.0G disk '' @ nl
                @ ''  '' @ box_last @ box_horiz @ box_horiz @ '' disk0s1 112.9G part /'' @ nl, []))"
  using insertion_qsort_permutes scenario_tree_output [OF insertion_qsort_permutes, of 0]
  by simp

text \<open>
  Claim C1 as stated gives the root row as \<open>disk0 113.0G disk\<close>, with nothing after
  \<open>disk\<close>. The run does not write that output.
\<close>

theorem scenario_tree_output_counterexample:
  "main (Suc (Suc 0)) insertion_qsort default_opts scenario_env
   \<noteq> Some (Inr (0, ''NAME SIZE TYPE MOUNTPOINT'' @ nl @ ''disk0 113.0G disk'' @ nl
               @ ''  '' @ box_last @ box_horiz @ box_horiz @ '' disk0s1 112.9G part /'' @ nl, []))"
  by (simp add: scenario_main_value [OF insertion_qsort_permutes] nl_def)

section \<open>Claim C3: the order of the roots and of the children\<close>

text \<open>
  Claim C3 says that the comparator which sorts the roots and the children of every node
  orders digit runs numerically, so that the sorted forest is in the natural order of the
  identifiers. The comment above \<open>name_cmp\<close> says the same, and the examples of the
  specification come out right (\<open>name_cmp_examples\<close>). But \<open>name_cmp\<close> steps over the
  bytes that are equal on both sides before it looks for digits, so it reads the numbers
  from the first byte that differs, inside the runs: for \<open>disk12\<close> and \<open>disk100\<close> it
  compares 2 with 00 and puts \<open>disk12\<close> after \<open>disk100\<close>. For the listing with \<open>disk12\<close>,
  its partitions \<open>disk12s12\<close> and \<open>disk12s100\<close>, and \<open>disk100\<close>, given in this (natural)
  order, every \<open>qsort\<close> that meets its contract makes the build turn both pairs round:
  the roots become \<open>disk100\<close>, \<open>disk12\<close>, the children of \<open>disk12\<close> become \<open>disk12s100\<close>,
  \<open>disk12s12\<close>, and the run prints the rows in this order.
\<close>

theorem numbered_listing_order:
  "qsort_sorts qs \<Longrightarrow>
   name_cmp (Some ''disk12'') (Some ''disk100'') = 1
   \<and> name_cmp (Some ''disk12s12'') (Some ''disk12s100'') = 1
   \<and> build_tree (Suc (Suc k)) qs numbered_listing = Some (Built [3, 0] numbered_flat)
   \<and> map (\<lambda>i. name (numbered_flat ! i)) [3, 0] = [''disk100'', ''disk12'']
   \<and> map (\<lambda>i. name (numbered_flat ! i)) (children (numbered_flat ! 0)) = [''disk12s100'', ''disk12s12'']
   \<and> main (Suc (Suc k)) qs default_opts numbered_env
     = Some (Inr (0, ''NAME SIZE TYPE MOUNTPOINT'' @ nl
                     @ ''disk100 0.0B disk '' @ nl
                     @ ''disk12 0.0B disk '' @ nl
                     @ ''  '' @ box_tee @ box_horiz @ box_horiz @ '' disk12s100 0.0B part '' @ nl
                     @ ''  '' @ box_last @ box_horiz @ box_horiz @ '' disk12s12 0.0B part '' @ nl, []))"
proof -
  assume q: "qsort_sorts qs"
  have n: "map (\<lambda>i. name (numbered_flat ! i)) [3, 0] = [''disk100'', ''disk12'']"
    "map (\<lambda>i. name (numbered_flat ! i)) (children (numbered_flat ! 0)) = [''disk12s100'', ''disk12s12'']"
    by (simp_all add: numbered_flat_def)
  show ?thesis
    using numbered_cmp(3) numbered_cmp(1) numbered_build [OF q, of k] n numbered_main [OF q, of k]
    by (intro conjI)
qed

text \<open>The theorem with the insertion sort for \<open>qsort\<close>, at the depth bound two.\<close>

theorem numbered_listing_order_witness:
  "qsort_sorts insertion_qsort
   \<and> build_tree (Suc (Suc 0)) insertion_qsort numbered_listing = Some (Built [3, 0] numbered_flat)
   \<and> main (Suc (Suc 0)) insertion_qsort default_opts numbered_env
     = Some (Inr (0, ''NAME SIZE TYPE MOUNTPOINT'' @ nl
                     @ ''disk100 0.0B disk '' @ nl
                     @ ''disk12 0.0B disk '' @ nl
                     @ ''  '' @ box_tee @ box_horiz @ box_horiz @ '' disk12s100 0.0B part '' @ nl
                     @ ''  '' @ box_last @ box_horiz @ box_horiz @ '' disk12s12 0.0B part '' @ nl, []))"
  using insertion_qsort_sorts numbered_listing_order [OF insertion_qsort_sorts, of 0]
  by blast

section \<open>Claim C4: one node for every identifier\<close>



section \<open>Claim C5: the shape of the forest\<close>

text \<open>
  Claim C5 says that the built forest is a tree for every bulk listing: a node has one
  parent, and it is never in the child lists of two parents or twice in one, also when
  its identifier occurs in several entries. The build does not keep this.
  \<open>ensure_node\<close> returns the node that an identifier already has, and \<open>add_partition\<close>
  and \<open>add_apfs_volume\<close> then append it to the child list of the enclosing disk once more.
  For the listing in which \<open>disk0\<close> lists \<open>disk0s1\<close> twice and \<open>disk1\<close> lists it again, the
  build returns the roots \<open>disk0\<close> and \<open>disk1\<close> (nodes 0 and 2) with node 1, \<open>disk0s1\<close>,
  twice in the child list of node 0 and once in that of node 2; its parent pointer is the
  last of them.
\<close>

theorem shared_partition_forest:
  "build_tree (Suc (Suc k)) insertion_qsort shared_listing = Some (Built [0, 2] shared_flat)
   \<and> children (shared_flat ! 0) = [1, 1]
   \<and> children (shared_flat ! 2) = [1]
   \<and> parent (shared_flat ! 1) = Some 2"
  by (simp add: shared_build) (simp add: shared_flat_def)

section \<open>Claim C6: mount resolution\<close>

text \<open>
  Claim C6, amended. A mount-table entry whose source does not begin with \<open>/dev/\<close>
  changes no node, and a mount table that cannot be read changes none. An entry with the
  source \<open>/dev/\<close> followed by an identifier, when its walk returns, changes nothing but
  mount points: it sets the mount point of every node that carries the identifier and
  that the walk reaches from the roots without passing through another node that carries
  it, and it leaves every other node as it was; so it changes no node when no node of the
  forest carries the identifier, and when several nodes carry it, it updates all of them
  that are not below another one, not only the first. On a forest whose depth below
  every root is within the bound of the recursion, mount resolution returns for every
  mount table.
\<close>

theorem mount_entry_effect:
  "(\<not> starts_with src ''/dev/'' \<longrightarrow> mount_entry fuel roots (src, tgt) flat = Some flat)
   \<and> fill_mountpoints fuel None roots flat = Some flat
   \<and> (mount_entry fuel roots (''/dev/'' @ ident, tgt) flat = Some flat'
      \<longrightarrow> length flat' = length flat
          \<and> (\<forall>p < length flat.
                flat' ! p = (if p \<in> walked flat ident (set roots) \<and> name (flat ! p) = ident
                             then (flat ! p)\<lparr>mountpoint := tgt\<rparr> else flat ! p))
          \<and> ((\<forall>p \<in> forest_nodes flat (set roots). name (flat ! p) \<noteq> ident) \<longrightarrow> flat' = flat))
   \<and> ((\<forall>r \<in> set roots. depth_le fuel flat r)
      \<longrightarrow> (\<exists>flat''. fill_mountpoints fuel mnt roots flat = Some flat''))"
proof (intro conjI impI)
  assume "\<not> starts_with src ''/dev/''"
  then show "mount_entry fuel roots (src, tgt) flat = Some flat" by (rule mount_entry_no_prefix)
next
  show "fill_mountpoints fuel None roots flat = Some flat" by (simp add: fill_mountpoints_def)
next
  assume m: "mount_entry fuel roots (''/dev/'' @ ident, tgt) flat = Some flat'"
  then have f: "fold_opt (\<lambda>r fl. set_mountpoint_recursive fuel fl r ident tgt) roots flat = Some flat'"
    by (simp only: mount_entry_prefix)
  from fold_set_mountpoint_effect [OF f]
  have len: "length flat' = length flat"
    and eff: "\<forall>p. flat' ! p = (if p < length flat \<and> p \<in> walked flat ident (set roots)
                                    \<and> name (flat ! p) = ident
                                 then (flat ! p)\<lparr>mountpoint := tgt\<rparr> else flat ! p)"
    by simp_all
  show "length flat' = length flat" by (rule len)
  show "\<forall>p < length flat.
          flat' ! p = (if p \<in> walked flat ident (set roots) \<and> name (flat ! p) = ident
                       then (flat ! p)\<lparr>mountpoint := tgt\<rparr> else flat ! p)"
    using eff by simp
  {
    assume no: "\<forall>p \<in> forest_nodes flat (set roots). name (flat ! p) \<noteq> ident"
    have "flat' ! p = flat ! p" for p
    proof (cases "p \<in> walked flat ident (set roots)")
      case True
      with walked_forest [of flat ident "set roots"] no have "name (flat ! p) \<noteq> ident" by blast
      with eff show ?thesis by simp
    next
      case False
      with eff show ?thesis by simp
    qed
    with len show "flat' = flat" by (simp add: nth_equalityI)
  }
next
  assume "\<forall>r \<in> set roots. depth_le fuel flat r"
  then show "\<exists>flat''. fill_mountpoints fuel mnt roots flat = Some flat''"
    by (rule fill_mountpoints_returns)
qed

text \<open>
  The theorem at the store with the root \<open>disk0\<close> and two children named \<open>disk0s1\<close>, for
  the entry that mounts \<open>/dev/disk0s1\<close> on \<open>/mnt\<close>: the walk reaches node 2 through the root,
  and node 2 gets the mount point; the source \<open>disk0s1\<close> without the prefix changes nothing.
\<close>

theorem mount_entry_effect_witness:
  "mount_entry (Suc (Suc 0)) [0] (''/dev/'' @ ''disk0s1'', ''/mnt'') (twin_flat [] [])
     = Some (twin_flat ''/mnt'' ''/mnt'')
   \<and> (2::nat) < length (twin_flat [] [])
   \<and> 2 \<in> walked (twin_flat [] []) ''disk0s1'' (set [0])
   \<and> name (twin_flat [] [] ! 2) = ''disk0s1''
   \<and> twin_flat ''/mnt'' ''/mnt'' ! 2 = (twin_flat [] [] ! 2)\<lparr>mountpoint := ''/mnt''\<rparr>
   \<and> \<not> starts_with ''disk0s1'' ''/dev/''
   \<and> mount_entry (Suc (Suc 0)) [0] (''disk0s1'', ''/mnt'') (twin_flat [] []) = Some (twin_flat [] [])
   \<and> depth_le (Suc (Suc 0)) (twin_flat [] []) 0
   \<and> (\<exists>flat''. fill_mountpoints (Suc (Suc 0)) (Some [(''/dev/disk0s1'', ''/mnt'')]) [0] (twin_flat [] [])
                  = Some flat'')"
proof -
  have m: "mount_entry (Suc (Suc 0)) [0] (''/dev/'' @ ''disk0s1'', ''/mnt'') (twin_flat [] [])
           = Some (twin_flat ''/mnt'' ''/mnt'')"
    using twin_mount [of 0] by simp
  have l: "(2::nat) < length (twin_flat [] [])" by (simp add: twin_flat_def)
  have "0 \<in> walked (twin_flat [] []) ''disk0s1'' (set [0])" by (simp add: walked.start)
  moreover have "name (twin_flat [] [] ! 0) \<noteq> ''disk0s1''" by (simp add: twin_flat_def)
  moreover have "2 \<in> set (children (twin_flat [] [] ! 0))" by (simp add: twin_flat_def)
  ultimately have w: "2 \<in> walked (twin_flat [] []) ''disk0s1'' (set [0])" by (rule walked.down)
  have n: "name (twin_flat [] [] ! 2) = ''disk0s1''" by (simp add: twin_flat_def)
  have p: "\<not> starts_with ''disk0s1'' ''/dev/''" by (simp add: starts_with_def)
  have d: "\<forall>r \<in> set [0]. depth_le (Suc (Suc 0)) (twin_flat [] []) r" by (simp add: twin_flat_def)
  note t = mount_entry_effect [of "''disk0s1''" "Suc (Suc 0)" "[0]" "''/mnt''" "twin_flat [] []"
      "''disk0s1''" "twin_flat ''/mnt'' ''/mnt''" "Some [(''/dev/disk0s1'', ''/mnt'')]"]
  from t p have a: "mount_entry (Suc (Suc 0)) [0] (''disk0s1'', ''/mnt'') (twin_flat [] [])
                    = Some (twin_flat [] [])" by blast
  from t m have "\<forall>p < length (twin_flat [] []).
        twin_flat ''/mnt'' ''/mnt'' ! p
        = (if p \<in> walked (twin_flat [] []) ''disk0s1'' (set [0]) \<and> name (twin_flat [] [] ! p) = ''disk0s1''
           then (twin_flat [] [] ! p)\<lparr>mountpoint := ''/mnt''\<rparr> else twin_flat [] [] ! p)"
    by blast
  with l w n have b: "twin_flat ''/mnt'' ''/mnt'' ! 2 = (twin_flat [] [] ! 2)\<lparr>mountpoint := ''/mnt''\<rparr>"
    by simp
  from t d have c: "\<exists>flat''. fill_mountpoints (Suc (Suc 0)) (Some [(''/dev/disk0s1'', ''/mnt'')]) [0]
                      (twin_flat [] []) = Some flat''" by blast
  from d have d0: "depth_le (Suc (Suc 0)) (twin_flat [] []) 0" by simp
  from m l w n b p a d0 c show ?thesis by blast
qed

text \<open>
  Claim C6 as stated says that of several nodes with the same identifier one mount entry
  updates only the first that the walk visits. In the store with two children named
  \<open>disk0s1\<close> the entry for \<open>/dev/disk0s1\<close> gives both the mount point: node 2, visited
  after node 1, changes as well.
\<close>

theorem twin_nodes_counterexample:
  "fill_mountpoints (Suc (Suc 0)) (Some [(''/dev/disk0s1'', ''/mnt'')]) [0] (twin_flat [] [])
     = Some (twin_flat ''/mnt'' ''/mnt'')
   \<and> name (twin_flat [] [] ! 1) = name (twin_flat [] [] ! 2)
   \<and> mountpoint (twin_flat ''/mnt'' ''/mnt'' ! 1) = ''/mnt''
   \<and> mountpoint (twin_flat [] [] ! 2) = []
   \<and> mountpoint (twin_flat ''/mnt'' ''/mnt'' ! 2) = ''/mnt''"
  by (simp add: fill_mountpoints_def twin_mount) (simp add: twin_flat_def)

section \<open>Claim C7: the mount point after enrichment\<close>

text \<open>
  Claim C7. In a run of \<open>main\<close> with \<open>-f\<close> that builds the forest and resolves the mount
  table, what is rendered (and then freed) is the store \<open>flat2\<close> that results from the
  store \<open>flat1\<close> of mount resolution when every node of the flat index has gone through
  \<open>fill_info\<close>. For every node: if its lookup succeeds and gives a mount point that is a
  string and not empty, the final mount point of the node is that of the lookup, whatever
  mount resolution had set; if the lookup gives no mount point, or one that is not a
  string or is empty, the mount point from mount resolution is kept; and if the lookup
  fails the node stays as mount resolution left it.
\<close>

theorem enrichment_mount_point_precedence:
  assumes "opt_f ops"
    and "parse_output_option (strdup_ok e) (opt_o ops) = (0, cols0)"
    and "cols = (if opt_o ops = None
                 then snd (parse_columns (strdup_ok e) ''NAME,SIZE,TYPE,FSTYPE,MOUNTPOINT,LABEL,UUID'')
                 else cols0)"
    and "get_list_plist (diskutil_list e) = Some pl"
    and "build_tree fuel qs pl = Some (Built roots flat)"
    and "fill_mountpoints fuel (mntinfo e) roots flat = Some flat1"
    and "flat2 = fill_info_all (diskutil_info e) flat1"
  shows "main fuel qs ops e =
           (case render fuel ops cols roots flat2 of
              None \<Rightarrow> None
            | Some out \<Rightarrow>
                (case free_roots fuel flat2 roots of
                   None \<Rightarrow> None
                 | Some (Inl err) \<Rightarrow> Some (Inl err)
                 | Some (Inr freed) \<Rightarrow> Some (Inr (0, out, []))))
         \<and> length flat2 = length flat1
         \<and> (\<forall>i < length flat1.
               (\<forall>d s. get_info_plist (diskutil_info e) (name (flat1 ! i)) = Some d
                        \<and> cfstr (CFDictionaryGetValue d ''MountPoint'') = Some s \<and> s \<noteq> []
                      \<longrightarrow> mountpoint (flat2 ! i) = s)
             \<and> (\<forall>d. get_info_plist (diskutil_info e) (name (flat1 ! i)) = Some d
                      \<and> (cfstr (CFDictionaryGetValue d ''MountPoint'') = None
                          \<or> cfstr (CFDictionaryGetValue d ''MountPoint'') = Some [])
                    \<longrightarrow> mountpoint (flat2 ! i) = mountpoint (flat1 ! i))
             \<and> (get_info_plist (diskutil_info e) (name (flat1 ! i)) = None
                    \<longrightarrow> flat2 ! i = flat1 ! i))"
proof (intro conjI allI impI)
  show "main fuel qs ops e =
           (case render fuel ops cols roots flat2 of
              None \<Rightarrow> None
            | Some out \<Rightarrow>
                (case free_roots fuel flat2 roots of
                   None \<Rightarrow> None
                 | Some (Inl err) \<Rightarrow> Some (Inl err)
                 | Some (Inr freed) \<Rightarrow> Some (Inr (0, out, []))))"
    unfolding assms(3) assms(7)
    by (rule main_enriched [OF assms(1) assms(2) assms(4) assms(5) assms(6)])
  show "length flat2 = length flat1"
    by (simp add: assms(7) fill_info_all_length)
next
  fix i d s
  assume i: "i < length flat1"
    and h: "get_info_plist (diskutil_info e) (name (flat1 ! i)) = Some d
            \<and> cfstr (CFDictionaryGetValue d ''MountPoint'') = Some s \<and> s \<noteq> []"
  from i h show "mountpoint (flat2 ! i) = s"
    by (simp add: assms(7) fill_info_all_nth fill_info_mountpoint)
next
  fix i d
  assume i: "i < length flat1"
    and h: "get_info_plist (diskutil_info e) (name (flat1 ! i)) = Some d
            \<and> (cfstr (CFDictionaryGetValue d ''MountPoint'') = None
                \<or> cfstr (CFDictionaryGetValue d ''MountPoint'') = Some [])"
  from i h show "mountpoint (flat2 ! i) = mountpoint (flat1 ! i)"
    by (auto simp: assms(7) fill_info_all_nth fill_info_mountpoint)
next
  fix i
  assume i: "i < length flat1"
    and h: "get_info_plist (diskutil_info e) (name (flat1 ! i)) = None"
  from i h show "flat2 ! i = flat1 ! i"
    by (simp add: assms(7) fill_info_all_nth fill_info_failed)
qed

text \<open>
  The theorem at the scenario with \<open>-f\<close>, where mount resolution puts \<open>disk0s1\<close> on
  \<open>/Volumes/Old\<close> and \<open>disk0\<close> on \<open>/Volumes/Whole\<close>, the lookup of \<open>disk0s1\<close> reports
  \<open>/Volumes/New\<close> and that of \<open>disk0\<close> an empty mount point: the run prints \<open>disk0s1\<close> on
  \<open>/Volumes/New\<close> and \<open>disk0\<close> on \<open>/Volumes/Whole\<close>.
\<close>

theorem enrichment_mount_point_precedence_witness:
  "opt_f (default_opts\<lparr>opt_f := True\<rparr>)
   \<and> build_tree (Suc (Suc 0)) insertion_qsort scenario_listing
       = Some (Built [0] [scenario_disk0, scenario_disk0s1 []])
   \<and> fill_mountpoints (Suc (Suc 0)) (mntinfo enriched_env) [0] [scenario_disk0, scenario_disk0s1 []]
       = Some [scenario_disk0\<lparr>mountpoint := ''/Volumes/Whole''\<rparr>, scenario_disk0s1 ''/Volumes/Old'']
   \<and> get_info_plist (diskutil_info enriched_env) ''disk0s1''
       = Some (CFDictionary [(''MountPoint'', CFString ''/Volumes/New'')])
   \<and> get_info_plist (diskutil_info enriched_env) ''disk0''
       = Some (CFDictionary [(''MountPoint'', CFString [])])
   \<and> mountpoint (fill_info_all (diskutil_info enriched_env)
         [scenario_disk0\<lparr>mountpoint := ''/Volumes/Whole''\<rparr>, scenario_disk0s1 ''/Volumes/Old''] ! 1)
       = ''/Volumes/New''
   \<and> mountpoint (fill_info_all (diskutil_info enriched_env)
         [scenario_disk0\<lparr>mountpoint := ''/Volumes/Whole''\<rparr>, scenario_disk0s1 ''/Volumes/Old''] ! 0)
       = ''/Volumes/Whole''
   \<and> main (Suc (Suc 0)) insertion_qsort (default_opts\<lparr>opt_f := True\<rparr>) enriched_env
       = Some (Inr (0, ''NAME SIZE TYPE FSTYPE MOUNTPOINT LABEL UUID'' @ nl
                       @ ''disk0 113.0G disk  /Volumes/Whole  '' @ nl
                       @ ''  '' @ box_last @ box_horiz @ box_horiz
                       @ '' disk0s1 112.9G part apfs /Volumes/New  '' @ nl, []))"
proof -
  let ?ops = "default_opts\<lparr>opt_f := True\<rparr>"
  let ?flat1 = "[scenario_disk0\<lparr>mountpoint := ''/Volumes/Whole''\<rparr>, scenario_disk0s1 ''/Volumes/Old'']"
  let ?cols = "[COL_NAME, COL_SIZE, COL_TYPE, COL_FSTYPE, COL_MOUNTPOINT, COL_LABEL, COL_UUID]"
  have f: "opt_f ?ops" by simp
  have p: "parse_output_option (strdup_ok enriched_env) (opt_o ?ops)
           = (0, [COL_NAME, COL_SIZE, COL_TYPE, COL_MOUNTPOINT])"
    by (simp add: enriched_env_def default_opts_def default_cols_value)
  have c: "?cols = (if opt_o ?ops = None
                    then snd (parse_columns (strdup_ok enriched_env)
                                ''NAME,SIZE,TYPE,FSTYPE,MOUNTPOINT,LABEL,UUID'')
                    else [COL_NAME, COL_SIZE, COL_TYPE, COL_MOUNTPOINT])"
    by (simp add: enriched_env_def default_opts_def full_cols_value)
  have l: "get_list_plist (diskutil_list enriched_env) = Some scenario_listing"
    by (simp add: get_list_plist_def enriched_env_def scenario_listing_def)
  have b: "build_tree (Suc (Suc 0)) insertion_qsort scenario_listing
           = Some (Built [0] [scenario_disk0, scenario_disk0s1 []])"
    by (rule scenario_build [OF insertion_qsort_permutes])
  have m: "fill_mountpoints (Suc (Suc 0)) (mntinfo enriched_env) [0] [scenario_disk0, scenario_disk0s1 []]
           = Some ?flat1"
    by (rule enriched_mounts)
  have g1: "get_info_plist (diskutil_info enriched_env) ''disk0s1''
            = Some (CFDictionary [(''MountPoint'', CFString ''/Volumes/New'')])"
    and g0: "get_info_plist (diskutil_info enriched_env) ''disk0''
            = Some (CFDictionary [(''MountPoint'', CFString [])])"
    by (simp_all add: get_info_plist_def enriched_env_def enriched_info_def)
  note inst = enrichment_mount_point_precedence [OF f p c l b m refl]
  from inst have run: "main (Suc (Suc 0)) insertion_qsort ?ops enriched_env =
           (case render (Suc (Suc 0)) ?ops ?cols [0] (fill_info_all (diskutil_info enriched_env) ?flat1) of
              None \<Rightarrow> None
            | Some out \<Rightarrow>
                (case free_roots (Suc (Suc 0)) (fill_info_all (diskutil_info enriched_env) ?flat1) [0] of
                   None \<Rightarrow> None
                 | Some (Inl err) \<Rightarrow> Some (Inl err)
                 | Some (Inr freed) \<Rightarrow> Some (Inr (0, out, []))))"
    by (elim conjE)
  from inst have nodes: "\<forall>i < length ?flat1.
               (\<forall>d s. get_info_plist (diskutil_info enriched_env) (name (?flat1 ! i)) = Some d
                        \<and> cfstr (CFDictionaryGetValue d ''MountPoint'') = Some s \<and> s \<noteq> []
                      \<longrightarrow> mountpoint (fill_info_all (diskutil_info enriched_env) ?flat1 ! i) = s)
             \<and> (\<forall>d. get_info_plist (diskutil_info enriched_env) (name (?flat1 ! i)) = Some d
                      \<and> (cfstr (CFDictionaryGetValue d ''MountPoint'') = None
                          \<or> cfstr (CFDictionaryGetValue d ''MountPoint'') = Some [])
                    \<longrightarrow> mountpoint (fill_info_all (diskutil_info enriched_env) ?flat1 ! i)
                        = mountpoint (?flat1 ! i))
             \<and> (get_info_plist (diskutil_info enriched_env) (name (?flat1 ! i)) = None
                    \<longrightarrow> fill_info_all (diskutil_info enriched_env) ?flat1 ! i = ?flat1 ! i)"
    by (elim conjE)
  have i1: "1 < length ?flat1" and i0: "0 < length ?flat1" by simp_all
  have n1: "name (?flat1 ! 1) = ''disk0s1''" and n0: "name (?flat1 ! 0) = ''disk0''"
    and m0: "mountpoint (?flat1 ! 0) = ''/Volumes/Whole''"
    by (simp_all add: scenario_disk0_def scenario_disk0s1_def)
  have new: "mountpoint (fill_info_all (diskutil_info enriched_env) ?flat1 ! 1) = ''/Volumes/New''"
  proof -
    from nodes have "\<forall>d s. get_info_plist (diskutil_info enriched_env) (name (?flat1 ! 1)) = Some d
                        \<and> cfstr (CFDictionaryGetValue d ''MountPoint'') = Some s \<and> s \<noteq> []
                      \<longrightarrow> mountpoint (fill_info_all (diskutil_info enriched_env) ?flat1 ! 1) = s"
      using i1 by blast
    then have "get_info_plist (diskutil_info enriched_env) (name (?flat1 ! 1))
                 = Some (CFDictionary [(''MountPoint'', CFString ''/Volumes/New'')])
               \<and> cfstr (CFDictionaryGetValue (CFDictionary [(''MountPoint'', CFString ''/Volumes/New'')])
                          ''MountPoint'') = Some ''/Volumes/New'' \<and> ''/Volumes/New'' \<noteq> []
               \<longrightarrow> mountpoint (fill_info_all (diskutil_info enriched_env) ?flat1 ! 1) = ''/Volumes/New''"
      by blast
    moreover have "cfstr (CFDictionaryGetValue (CFDictionary [(''MountPoint'', CFString ''/Volumes/New'')])
                          ''MountPoint'') = Some ''/Volumes/New''"
      by simp
    ultimately show ?thesis using g1 n1 by simp
  qed
  have kept: "mountpoint (fill_info_all (diskutil_info enriched_env) ?flat1 ! 0) = ''/Volumes/Whole''"
  proof -
    from nodes have "\<forall>d. get_info_plist (diskutil_info enriched_env) (name (?flat1 ! 0)) = Some d
                      \<and> (cfstr (CFDictionaryGetValue d ''MountPoint'') = None
                          \<or> cfstr (CFDictionaryGetValue d ''MountPoint'') = Some [])
                    \<longrightarrow> mountpoint (fill_info_all (diskutil_info enriched_env) ?flat1 ! 0)
                        = mountpoint (?flat1 ! 0)"
      using i0 by blast
    then have "get_info_plist (diskutil_info enriched_env) (name (?flat1 ! 0))
                 = Some (CFDictionary [(''MountPoint'', CFString [])])
               \<and> (cfstr (CFDictionaryGetValue (CFDictionary [(''MountPoint'', CFString [])]) ''MountPoint'') = None
                  \<or> cfstr (CFDictionaryGetValue (CFDictionary [(''MountPoint'', CFString [])]) ''MountPoint'') = Some [])
               \<longrightarrow> mountpoint (fill_info_all (diskutil_info enriched_env) ?flat1 ! 0)
                   = mountpoint (?flat1 ! 0)"
      by blast
    moreover have "cfstr (CFDictionaryGetValue (CFDictionary [(''MountPoint'', CFString [])]) ''MountPoint'')
                   = Some []"
      by simp
    ultimately show ?thesis using g0 n0 m0 by simp
  qed
  have e: "diskutil_info enriched_env = enriched_info" by (simp add: enriched_env_def)
  have r: "render (Suc (Suc 0)) ?ops ?cols [0] (fill_info_all (diskutil_info enriched_env) ?flat1)
           = Some (''NAME SIZE TYPE FSTYPE MOUNTPOINT LABEL UUID'' @ nl
                       @ ''disk0 113.0G disk  /Volumes/Whole  '' @ nl
                       @ ''  '' @ box_last @ box_horiz @ box_horiz
                       @ '' disk0s1 112.9G part apfs /Volumes/New  '' @ nl)"
    unfolding e enriched_fill by (simp add: render_def default_opts_def enriched_forest)
  have fr: "free_roots (Suc (Suc 0)) (fill_info_all (diskutil_info enriched_env) ?flat1) [0]
            = Some (Inr [1, 0])"
    unfolding e enriched_fill by (rule enriched_free)
  have out: "main (Suc (Suc 0)) insertion_qsort ?ops enriched_env
       = Some (Inr (0, ''NAME SIZE TYPE FSTYPE MOUNTPOINT LABEL UUID'' @ nl
                       @ ''disk0 113.0G disk  /Volumes/Whole  '' @ nl
                       @ ''  '' @ box_last @ box_horiz @ box_horiz
                       @ '' disk0s1 112.9G part apfs /Volumes/New  '' @ nl, []))"
    unfolding run r fr by simp
  from f b m g1 g0 new kept out show ?thesis by (intro conjI)
qed

section \<open>Claim C8: fatal and degraded failures\<close>

text \<open>
  Claim C8 says that the run aborts with one diagnostic and no output when the bulk
  listing is missing or malformed, and that in every other case it completes and renders.
  The first half holds (\<open>main_listing_unavailable\<close>, \<open>main_listing_malformed\<close>), and a
  mount table that cannot be read or a failed lookup aborts nothing. The second half does
  not hold for every listing: for the listing in which \<open>disk0\<close> lists itself as its
  partition, the build makes node 0 its own child, and with the default options and no
  mount table the tree printer recurses without end. Whatever the depth bound, the run
  does not return.
\<close>

theorem cyclic_listing_run:
  "main fuel insertion_qsort default_opts cyclic_env = None"
  by (rule cyclic_main)

section \<open>Claim C9: at most 64 roots\<close>

text \<open>
  Claim C9, amended. The build bounds the roots at 64. It takes the top-level entries
  that carry a string identifier in order (an entry that is not a dictionary, or has no
  such identifier, is skipped and does not count); the nodes of the first 64 of them are
  the roots when the loop ends, and the roots of the build are these in sorted order. A
  later entry is not added as a root, though its node is still created and registered in
  the flat index: every identifier of a top-level entry is a name in the index. Every
  root and every child of the forest carries the identifier of one of the first 64
  entries or of one of their partitions and volumes; so the node of a later entry is
  rendered only if its identifier occurs there as well.
\<close>

theorem roots_capped:
  "fst (collect_nodes all None ([], []))
     = map (\<lambda>x. the (find_name (snd (collect_nodes all None ([], []))) x)) (take 64 (top_ids all))
   \<and> (qsort_permutes qs
        \<and> CFDictionaryGetValue pl ''AllDisksAndPartitions'' = Some (CFArray all)
        \<and> build_tree fuel qs pl = Some (Built roots flat)
      \<longrightarrow> length roots \<le> 64
          \<and> mset roots = mset (map (\<lambda>x. the (find_name flat x)) (take 64 (top_ids all)))
          \<and> set (top_ids all) \<subseteq> set (map name flat)
          \<and> (\<forall>p. p \<in> set roots \<or> (\<exists>n \<in> set flat. p \<in> set (children n))
                \<longrightarrow> p < length flat
                    \<and> name (flat ! p) \<in> set (take 64 (top_ids all))
                           \<union> (\<Union>d \<in> set (take 64 (top_entries all)). set (child_ids d))))"
proof (intro conjI impI)
  show "fst (collect_nodes all None ([], []))
     = map (\<lambda>x. the (find_name (snd (collect_nodes all None ([], []))) x)) (take 64 (top_ids all))"
    using collect_nodes_roots [of all "[]" "[]"] by simp
next
  assume h: "qsort_permutes qs
        \<and> CFDictionaryGetValue pl ''AllDisksAndPartitions'' = Some (CFArray all)
        \<and> build_tree fuel qs pl = Some (Built roots flat)"
  then have q: "qsort_permutes qs"
    and a: "CFDictionaryGetValue pl ''AllDisksAndPartitions'' = Some (CFArray all)"
    and b: "build_tree fuel qs pl = Some (Built roots flat)" by simp_all
  show "length roots \<le> 64" by (rule build_roots_capped(1) [OF q a b])
  show "mset roots = mset (map (\<lambda>x. the (find_name flat x)) (take 64 (top_ids all)))"
    by (rule build_roots_capped(2) [OF q a b])
  show "set (top_ids all) \<subseteq> set (map name flat)" by (rule build_roots_capped(3) [OF q a b])
  show "\<forall>p. p \<in> set roots \<or> (\<exists>n \<in> set flat. p \<in> set (children n))
                \<longrightarrow> p < length flat
                    \<and> name (flat ! p) \<in> set (take 64 (top_ids all))
                           \<union> (\<Union>d \<in> set (take 64 (top_entries all)). set (child_ids d))"
    using build_roots_capped(4) [OF q a b] unfolding attached_in_def by blast
qed

text \<open>
  The theorem at the listing with the 65 entries \<open>disk0\<close> to \<open>disk64\<close>: the build returns 64
  roots, and \<open>disk64\<close>, the identifier of the last entry, is a name in the flat index.
\<close>

theorem roots_capped_witness:
  "qsort_permutes insertion_qsort
   \<and> CFDictionaryGetValue crowded_listing ''AllDisksAndPartitions'' = Some (CFArray crowded_entries)
   \<and> length (top_entries crowded_entries) = 65
   \<and> (\<exists>roots flat. build_tree (Suc 0) insertion_qsort crowded_listing = Some (Built roots flat)
        \<and> length roots \<le> 64 \<and> set (top_ids crowded_entries) \<subseteq> set (map name flat))"
proof -
  have a: "CFDictionaryGetValue crowded_listing ''AllDisksAndPartitions'' = Some (CFArray crowded_entries)"
    by (simp add: crowded_listing_def)
  from crowded_build [of 0] obtain roots flat where
    b: "build_tree (Suc 0) insertion_qsort crowded_listing = Some (Built roots flat)" by blast
  from roots_capped [of crowded_entries insertion_qsort crowded_listing "Suc 0" roots flat]
    insertion_qsort_permutes a b
  have "length roots \<le> 64 \<and> set (top_ids crowded_entries) \<subseteq> set (map name flat)" by blast
  with insertion_qsort_permutes a b crowded_top show ?thesis by blast
qed

text \<open>
  Claim C9 as stated says that an entry after the first 64 is never rendered. In the
  listing with the 65 entries \<open>disk0\<close> to \<open>disk64\<close> whose first entry lists \<open>disk64\<close> as its
  partition, the last entry is not a root, and its node is node 1, the child of the root
  \<open>disk0\<close>: the tree printed below that root is the row of \<open>disk64\<close>.
\<close>

theorem crowded_listing_counterexample:
  "length (top_entries crowded_entries) = 65
   \<and> entry_id (crowded_entries ! 64) = Some ''disk64''
   \<and> (\<exists>roots flat. build_tree (Suc 0) insertion_qsort crowded_listing = Some (Built roots flat)
        \<and> length roots = 64 \<and> 0 \<in> set roots \<and> 1 \<notin> set roots
        \<and> name (flat ! 1) = ''disk64''
        \<and> print_tree (Suc (Suc 0)) flat 0 [COL_NAME] ''  '' False
            = Some (''  '' @ box_last @ box_horiz @ box_horiz @ '' disk64'' @ nl))"
proof -
  from crowded_build [of 0] obtain roots flat where
    b: "build_tree (Suc 0) insertion_qsort crowded_listing = Some (Built roots flat)"
    and p: "length roots = 64" "1 \<notin> set roots" "0 \<in> set roots"
      "children (flat ! 0) = [1]" "name (flat ! 1) = ''disk64''" "children (flat ! 1) = []"
    by blast
  have "print_tree (Suc (Suc 0)) flat 0 [COL_NAME] ''  '' False
        = Some (''  '' @ box_last @ box_horiz @ box_horiz @ '' disk64'' @ nl)"
    using p(4,5,6) by (simp add: Let_def tree_cells_def)
  with b p crowded_top show ?thesis by blast
qed

section \<open>Claim C10: unknown column names\<close>

text \<open>
  Claim C10, amended. \<open>parse_columns\<close> never rejects a name. It drops the leading spaces of
  every comma-separated token and then compares: the columns it stores are, in order, the
  columns of the tokens that after this equal one of the seven names without regard to
  case, and every other token is skipped. It reports success when these are at most 32,
  and failure otherwise (with the first 32 stored) or when \<open>strdup\<close> fails. A list in which
  no token is a column name gives success with no column, and \<open>main\<close> then goes on with the
  empty list of columns.
\<close>

theorem parse_columns_skips_unknown:
  "parse_columns True ostr =
     (if length (List.map_filter (\<lambda>tok. find_col (dropWhile (\<lambda>c. c = CHR '' '') tok)) (strtok_all ostr)) \<le> 32
      then (0, List.map_filter (\<lambda>tok. find_col (dropWhile (\<lambda>c. c = CHR '' '') tok)) (strtok_all ostr))
      else (- 1, take 32 (List.map_filter (\<lambda>tok. find_col (dropWhile (\<lambda>c. c = CHR '' '') tok))
                            (strtok_all ostr))))
   \<and> parse_columns False ostr = (- 1, [])
   \<and> (find_col t = None \<longleftrightarrow> (\<forall>c. \<not> strcasecmp_eq t (col_names c)))
   \<and> (find_col t = Some c \<longrightarrow> strcasecmp_eq t (col_names c))
   \<and> ((\<forall>tok \<in> set (strtok_all ostr). find_col (dropWhile (\<lambda>c. c = CHR '' '') tok) = None)
        \<longrightarrow> parse_columns True ostr = (0, [])
            \<and> (strdup_ok e \<and> opt_o ops = Some ostr \<and> ostr \<noteq> []
                 \<longrightarrow> main fuel qs ops e = main_run fuel qs ops e []))"
proof -
  let ?f = "\<lambda>tok. find_col (dropWhile (\<lambda>c. c = CHR '' '') tok)"
  have eq: "parse_columns True ostr =
     (if length (List.map_filter ?f (strtok_all ostr)) \<le> 32
      then (0, List.map_filter ?f (strtok_all ostr))
      else (- 1, take 32 (List.map_filter ?f (strtok_all ostr))))"
    using parse_tokens_eq [of "[]" "strtok_all ostr"] by (simp add: parse_columns_def)
  have unknown: "parse_columns True ostr = (0, [])"
    if "\<forall>tok \<in> set (strtok_all ostr). ?f tok = None"
    using eq map_filter_all_None [OF that] by simp
  have run: "main fuel qs ops e = main_run fuel qs ops e []"
    if "\<forall>tok \<in> set (strtok_all ostr). ?f tok = None"
      and "strdup_ok e" "opt_o ops = Some ostr" "ostr \<noteq> []"
    using unknown [OF that(1)] that(2-4) by (simp add: main_def parse_output_option_def)
  show ?thesis
    using eq unknown run find_col_None_iff [of t] find_col_Some [of t c]
    by (simp add: parse_columns_def)
qed

text \<open>
  The theorem at \<open>-o FOO,bar\<close> in the scenario: no token is a column name, parsing succeeds
  with no column, and the run renders the tree with an empty header and the names alone.
\<close>

theorem parse_columns_skips_unknown_witness:
  "strtok_all ''FOO,bar'' = [''FOO'', ''bar'']
   \<and> find_col ''FOO'' = None \<and> find_col ''bar'' = None
   \<and> parse_columns True ''FOO,bar'' = (0, [])
   \<and> main (Suc (Suc 0)) insertion_qsort (default_opts\<lparr>opt_o := Some ''FOO,bar''\<rparr>) scenario_env
     = Some (Inr (0, nl @ ''disk0'' @ nl @ ''  '' @ box_last @ box_horiz @ box_horiz @ '' disk0s1'' @ nl, []))"
proof -
  let ?ops = "default_opts\<lparr>opt_o := Some ''FOO,bar''\<rparr>"
  have t: "strtok_all ''FOO,bar'' = [''FOO'', ''bar'']" by (simp add: strtok_all.simps)
  have f: "find_col ''FOO'' = None" "find_col ''bar'' = None" by (simp_all add: cols_eval)
  have all: "\<forall>tok \<in> set (strtok_all ''FOO,bar''). find_col (dropWhile (\<lambda>c. c = CHR '' '') tok) = None"
    by (simp add: t f)
  have h: "strdup_ok scenario_env" "opt_o ?ops = Some ''FOO,bar''" "''FOO,bar'' \<noteq> []"
    by (simp_all add: scenario_env_def)
  have imp: "(\<forall>tok \<in> set (strtok_all ''FOO,bar''). find_col (dropWhile (\<lambda>c. c = CHR '' '') tok) = None)
        \<longrightarrow> parse_columns True ''FOO,bar'' = (0, [])
            \<and> (strdup_ok scenario_env \<and> opt_o ?ops = Some ''FOO,bar'' \<and> ''FOO,bar'' \<noteq> []
                 \<longrightarrow> main (Suc (Suc 0)) insertion_qsort ?ops scenario_env
                     = main_run (Suc (Suc 0)) insertion_qsort ?ops scenario_env [])"
    using parse_columns_skips_unknown [of "''FOO,bar''" "''FOO''" COL_NAME scenario_env ?ops
      "Suc (Suc 0)" insertion_qsort] by (elim conjE)
  from imp all have p: "parse_columns True ''FOO,bar'' = (0, [])" by blast
  from imp all h have m: "main (Suc (Suc 0)) insertion_qsort ?ops scenario_env
            = main_run (Suc (Suc 0)) insertion_qsort ?ops scenario_env []"
    by blast
  have r: "main_run (Suc (Suc 0)) insertion_qsort ?ops scenario_env []
           = main_run (Suc (Suc 0)) insertion_qsort default_opts scenario_env []"
    by (rule main_run_opts) (simp_all add: default_opts_def)
  show ?thesis
    using t f p m r scenario_main_run [OF insertion_qsort_permutes, of 0 "[]"]
    by (simp add: scenario_forest_no_columns)
qed

text \<open>
  Claim C10 as stated skips every token that does not equal a column name. The token
  \<open> name\<close>, with a space in front, equals none of them, and it selects the column NAME.
\<close>

theorem parse_columns_leading_space_counterexample:
  "strtok_all ''SIZE, name'' = [''SIZE'', '' name'']
   \<and> find_col '' name'' = None
   \<and> parse_columns True ''SIZE, name'' = (0, [COL_SIZE, COL_NAME])"
  by (simp add: cols_eval)

end
